theory Spec2Isabelle
  imports Complex_Main "HOL-Library.Sublist"
begin

section \<open>Numbers\<close>

text \<open>
  The engine computes with Python floats. A float is modelled as a real; every arithmetic
  result passes through a rounding function \<open>fl\<close>, the parameter of all operations below.
  \<^item> \<open>exact\<close> is arithmetic without rounding;
  \<^item> \<open>binary64\<close> rounds to the nearest number with a 53-bit significand, ties to the
    even significand, as Python's \<open>float\<close> does.
  A Python \<open>int\<close> is read as the float of the same value. \<open>x ** n\<close> and \<open>math.exp\<close>
  raise \<open>OverflowError\<close> when their result lies beyond the largest float, \<open>float_max\<close>;
  the other operations of Python give an infinity there and raise nothing. Infinities,
  NaN and the loss of precision below the smallest normal float are outside the model:
  the significand has 53 bits at every magnitude.
\<close>

type_synonym rounding = "real \<Rightarrow> real"

definition exact :: rounding where
  "exact x = x"

definition round_half_even :: "real \<Rightarrow> int" where
  "round_half_even m =
     (let f = \<lfloor>m\<rfloor> in
      if m - of_int f < 1 / 2 then f
      else if 1 / 2 < m - of_int f then f + 1
      else if even f then f else f + 1)"

definition binary64 :: rounding where
  "binary64 x =
     (if x = 0 then 0
      else let e = \<lfloor>log 2 \<bar>x\<bar>\<rfloor> - 52
           in of_int (round_half_even (x / 2 powi e)) * 2 powi e)"

definition float_max :: real where
  "float_max = (2 ^ 53 - 1) * 2 ^ 971"

definition overflows :: "rounding \<Rightarrow> real \<Rightarrow> bool" where
  "overflows fl r = (float_max < \<bar>fl r\<bar>)"

datatype error = AssertionError | ZeroDivisionError | OverflowError | ComplexResult

text \<open>
  Python's \<open>x ** n\<close> on floats, in the order of its checks. Zero to a negative power raises
  \<open>ZeroDivisionError\<close>. A negative base with a non-integral exponent gives a complex
  number: Python raises nothing there, but the objects of this model hold reals, so the
  outcome is reported as \<open>ComplexResult\<close> and the model does not follow the computation
  further. A result beyond the largest float raises \<open>OverflowError\<close>.
\<close>

definition pow_value :: "real \<Rightarrow> real \<Rightarrow> real" where
  "pow_value x n = (if n \<in> \<int> then x powi \<lfloor>n\<rfloor> else x powr n)"

text \<open>The bases and exponents for which \<open>x ** n\<close> is a real number.\<close>

definition pow_defined :: "real \<Rightarrow> real \<Rightarrow> bool" where
  "pow_defined x n = (0 < x \<or> (x < 0 \<and> n \<in> \<int>) \<or> (x = 0 \<and> 0 \<le> n))"

definition float_pow :: "rounding \<Rightarrow> real \<Rightarrow> real \<Rightarrow> error + real" where
  "float_pow fl x n =
     (if x = 0 \<and> n < 0 then Inl ZeroDivisionError
      else if x < 0 \<and> n \<notin> \<int> then Inl ComplexResult
      else if overflows fl (pow_value x n) then Inl OverflowError
      else Inr (fl (pow_value x n)))"

text \<open>\<open>math.exp(x)\<close>\<close>

definition float_exp :: "rounding \<Rightarrow> real \<Rightarrow> error + real" where
  "float_exp fl x = (if overflows fl (exp x) then Inl OverflowError else Inr (fl (exp x)))"

definition float_div :: "rounding \<Rightarrow> real \<Rightarrow> real \<Rightarrow> error + real" where
  "float_div fl a b = (if b = 0 then Inl ZeroDivisionError else Inr (fl (a / b)))"

section \<open>Nodes and the heap\<close>

text \<open>
  A \<open>Value\<close> object is identified by its address, its index in the heap; the heap grows by
  one cell per constructor call. The closure stored in \<open>_backward\<close> is a tag with the
  objects it captured (\<open>self\<close>, \<open>other\<close>, \<open>out\<close>, and for \<open>tanh\<close> the number \<open>t\<close>).
  \<open>_prev\<close> is a set: it is kept as the duplicate-free list of its elements in the order the
  set iterates them. \<open>_op\<close> is kept as a tag rather than as the formatted string.
\<close>

datatype backward_rule =
    NoOp
  | AddBw nat nat nat
  | MulBw nat nat nat
  | PowBw nat real nat
  | TanhBw nat real nat
  | ReluBw nat nat
  | ExpBw nat nat

datatype op_tag = OpNone | OpAdd | OpMul | OpPow real | OpTanh | OpReLU | OpExp

record Value =
  data :: real
  grad :: real
  backward_rule :: backward_rule
  prev :: "nat list"
  op :: op_tag
  label :: string

type_synonym heap = "Value list"

datatype arg = Num real | Ref nat

text \<open>\<open>Value(data, _children, _op)\<close>: a new object at the next free address.\<close>

definition Value_init :: "heap \<Rightarrow> real \<Rightarrow> nat list \<Rightarrow> op_tag \<Rightarrow> heap \<times> nat" where
  "Value_init h d children tag =
     (h @ [\<lparr>data = d, grad = 0, backward_rule = NoOp, prev = remdups children,
            op = tag, label = []\<rparr>], length h)"

definition set_backward :: "heap \<Rightarrow> nat \<Rightarrow> backward_rule \<Rightarrow> heap" where
  "set_backward h out r = h[out := (h ! out)\<lparr>backward_rule := r\<rparr>]"

text \<open>\<open>other if isinstance(other, Value) else Value(other)\<close>\<close>

fun coerce :: "heap \<Rightarrow> arg \<Rightarrow> heap \<times> nat" where
  "coerce h (Ref b) = (h, b)"
| "coerce h (Num x) = Value_init h x [] OpNone"

section \<open>Forward operations\<close>

definition add :: "rounding \<Rightarrow> heap \<Rightarrow> nat \<Rightarrow> arg \<Rightarrow> heap \<times> nat" where
  "add fl h self other =
     (let (h1, b) = coerce h other;
          (h2, out) = Value_init h1 (fl (data (h1 ! self) + data (h1 ! b))) [self, b] OpAdd
      in (set_backward h2 out (AddBw self b out), out))"

definition radd :: "rounding \<Rightarrow> heap \<Rightarrow> nat \<Rightarrow> arg \<Rightarrow> heap \<times> nat" where
  "radd fl h self other = add fl h self other"

definition mul :: "rounding \<Rightarrow> heap \<Rightarrow> nat \<Rightarrow> arg \<Rightarrow> heap \<times> nat" where
  "mul fl h self other =
     (let (h1, b) = coerce h other;
          (h2, out) = Value_init h1 (fl (data (h1 ! self) * data (h1 ! b))) [self, b] OpMul
      in (set_backward h2 out (MulBw self b out), out))"

definition rmul :: "rounding \<Rightarrow> heap \<Rightarrow> nat \<Rightarrow> arg \<Rightarrow> heap \<times> nat" where
  "rmul fl h self other = mul fl h self other"

fun pow :: "rounding \<Rightarrow> heap \<Rightarrow> nat \<Rightarrow> arg \<Rightarrow> error + heap \<times> nat" where
  "pow fl h self (Ref b) = Inl AssertionError"
| "pow fl h self (Num n) =
     (case float_pow fl (data (h ! self)) n of
        Inl e \<Rightarrow> Inl e
      | Inr p \<Rightarrow>
          let (h1, out) = Value_init h p [self] (OpPow n)
          in Inr (set_backward h1 out (PowBw self n out), out))"

definition neg :: "rounding \<Rightarrow> heap \<Rightarrow> nat \<Rightarrow> heap \<times> nat" where
  "neg fl h self = mul fl h self (Num (- 1))"

fun sub :: "rounding \<Rightarrow> heap \<Rightarrow> nat \<Rightarrow> arg \<Rightarrow> heap \<times> nat" where
  "sub fl h self (Ref b) = (let (h1, nb) = neg fl h b in add fl h1 self (Ref nb))"
| "sub fl h self (Num x) = add fl h self (Num (- x))"

definition rsub :: "rounding \<Rightarrow> heap \<Rightarrow> nat \<Rightarrow> real \<Rightarrow> heap \<times> nat" where
  "rsub fl h self other = (let (h1, ns) = neg fl h self in radd fl h1 ns (Num other))"

fun truediv :: "rounding \<Rightarrow> heap \<Rightarrow> nat \<Rightarrow> arg \<Rightarrow> error + heap \<times> nat" where
  "truediv fl h self (Ref b) =
     (case pow fl h b (Num (- 1)) of
        Inl e \<Rightarrow> Inl e
      | Inr (h1, r) \<Rightarrow> Inr (mul fl h1 self (Ref r)))"
| "truediv fl h self (Num x) =
     (case float_pow fl x (- 1) of
        Inl e \<Rightarrow> Inl e
      | Inr r \<Rightarrow> Inr (mul fl h self (Num r)))"

definition rtruediv :: "rounding \<Rightarrow> heap \<Rightarrow> nat \<Rightarrow> real \<Rightarrow> error + heap \<times> nat" where
  "rtruediv fl h self other =
     (case pow fl h self (Num (- 1)) of
        Inl e \<Rightarrow> Inl e
      | Inr (h1, r) \<Rightarrow> Inr (rmul fl h1 r (Num other)))"

text \<open>\<open>t = (math.exp(2*x) - 1) / (math.exp(2*x) + 1)\<close>: the numerator is evaluated first.\<close>

definition tanh_value :: "rounding \<Rightarrow> real \<Rightarrow> error + real" where
  "tanh_value fl x =
     (case float_exp fl (fl (2 * x)) of
        Inl e \<Rightarrow> Inl e
      | Inr e1 \<Rightarrow>
          (case float_exp fl (fl (2 * x)) of
             Inl e \<Rightarrow> Inl e
           | Inr e2 \<Rightarrow> float_div fl (fl (e1 - 1)) (fl (e2 + 1))))"

definition tanh_op :: "rounding \<Rightarrow> heap \<Rightarrow> nat \<Rightarrow> error + heap \<times> nat" where
  "tanh_op fl h self =
     (case tanh_value fl (data (h ! self)) of
        Inl e \<Rightarrow> Inl e
      | Inr t \<Rightarrow>
          let (h1, out) = Value_init h t [self] OpTanh
          in Inr (set_backward h1 out (TanhBw self t out), out))"

definition relu :: "heap \<Rightarrow> nat \<Rightarrow> heap \<times> nat" where
  "relu h self =
     (let (h1, out) = Value_init h (if data (h ! self) < 0 then 0 else data (h ! self))
                        [self] OpReLU
      in (set_backward h1 out (ReluBw self out), out))"

definition exp_op :: "rounding \<Rightarrow> heap \<Rightarrow> nat \<Rightarrow> error + heap \<times> nat" where
  "exp_op fl h self =
     (case float_exp fl (data (h ! self)) of
        Inl e \<Rightarrow> Inl e
      | Inr y \<Rightarrow>
          let (h1, out) = Value_init h y [self] OpExp
          in Inr (set_backward h1 out (ExpBw self out), out))"

section \<open>The backward pass\<close>

text \<open>\<open>a.grad += c\<close>\<close>

definition add_grad :: "rounding \<Rightarrow> heap \<Rightarrow> nat \<Rightarrow> real \<Rightarrow> heap" where
  "add_grad fl h a c = h[a := (h ! a)\<lparr>grad := fl (grad (h ! a) + c)\<rparr>]"

text \<open>
  Calling a \<open>_backward\<close> closure. Each statement reads the fields it names at the moment it
  runs: \<open>out.grad\<close> is read again for the second operand, and \<open>data\<close> is read from the heap
  as it is during the backward pass. The closures of power and tanh objects evaluate a
  \<open>**\<close>, which can raise; it does so before the closure writes.
\<close>

fun run_rule :: "rounding \<Rightarrow> backward_rule \<Rightarrow> heap \<Rightarrow> error + heap" where
  "run_rule fl NoOp h = Inr h"
| "run_rule fl (AddBw self other out) h =
     (let h1 = add_grad fl h self (grad (h ! out))
      in Inr (add_grad fl h1 other (grad (h1 ! out))))"
| "run_rule fl (MulBw self other out) h =
     (let h1 = add_grad fl h self (fl (data (h ! other) * grad (h ! out)))
      in Inr (add_grad fl h1 other (fl (data (h1 ! self) * grad (h1 ! out)))))"
| "run_rule fl (PowBw self other out) h =
     (case float_pow fl (data (h ! self)) (fl (other - 1)) of
        Inl e \<Rightarrow> Inl e
      | Inr p \<Rightarrow> Inr (add_grad fl h self (fl (fl (other * p) * grad (h ! out)))))"
| "run_rule fl (TanhBw self t out) h =
     (case float_pow fl t 2 of
        Inl e \<Rightarrow> Inl e
      | Inr p \<Rightarrow> Inr (add_grad fl h self (fl (fl (1 - p) * grad (h ! out)))))"
| "run_rule fl (ReluBw self out) h =
     Inr (add_grad fl h self (fl (of_bool (0 < data (h ! out)) * grad (h ! out))))"
| "run_rule fl (ExpBw self out) h =
     Inr (add_grad fl h self (fl (data (h ! out) * grad (h ! out))))"

text \<open>The operand set of an object; an address that holds no object has none.\<close>

definition operands :: "heap \<Rightarrow> nat \<Rightarrow> nat list" where
  "operands h v = (if v < length h then prev (h ! v) else [])"

text \<open>
  \<open>build_topo\<close> with its two mutable variables \<open>visited\<close> and \<open>topo\<close> passed as a pair;
  \<open>build_topo_children\<close> is the \<open>for child in v._prev\<close> loop.
\<close>

function build_topo :: "heap \<Rightarrow> nat \<Rightarrow> nat set \<times> nat list \<Rightarrow> nat set \<times> nat list"
  and build_topo_children :: "heap \<Rightarrow> nat list \<Rightarrow> nat set \<times> nat list \<Rightarrow> nat set \<times> nat list"
where
  "build_topo h v (visited, topo) =
     (if v \<notin> visited then
        (let (visited', topo') = build_topo_children h (operands h v) (insert v visited, topo)
         in (visited', topo' @ [v]))
      else (visited, topo))"
| "build_topo_children h [] s = s"
| "build_topo_children h (child # rest) s = build_topo_children h rest (build_topo h child s)"
  by pat_completeness auto


text \<open>
  The recursion stops because every call that goes on marks an unvisited object of the
  finite heap; the nested call needs that \<open>visited\<close> only grows.
\<close>

lemma visited_mono_dom:
  "build_topo_build_topo_children_dom (Inl (h, v, s)) \<Longrightarrow> fst s \<subseteq> fst (build_topo h v s)"
  "build_topo_build_topo_children_dom (Inr (h, cs, s)) \<Longrightarrow>
     fst s \<subseteq> fst (build_topo_children h cs s)"
proof (induction h v s and h cs s rule: build_topo_build_topo_children.pinduct)
  case (1 h v visited topo)
  then show ?case
    by (auto simp: build_topo.psimps split: prod.splits)
next
  case (2 h s)
  then show ?case by (simp add: build_topo_children.psimps)
next
  case (3 h child rest s)
  then show ?case by (auto simp: build_topo_children.psimps)
qed

termination build_topo
proof (relation "(\<lambda>x. case x of Inl (h, v, s) \<Rightarrow> card ({..<length h} - fst s)
                                 | Inr (h, cs, s) \<Rightarrow> card ({..<length h} - fst s))
                 <*mlex*> measure (\<lambda>x. case x of Inl (h, v, s) \<Rightarrow> 1
                                                | Inr (h, cs, s) \<Rightarrow> 2 * length cs)",
       goal_cases)
  case 1
  show ?case by (simp add: wf_mlex)
next
  case (2 h v visited topo)
  show ?case
  proof (cases "v < length h")
    case True
    with 2 have "card ({..<length h} - insert v visited) < card ({..<length h} - visited)"
      by (intro psubset_card_mono) auto
    then show ?thesis by (simp add: mlex_less)
  next
    case False
    then have "{..<length h} - insert v visited = {..<length h} - visited" by auto
    with False show ?thesis by (simp add: mlex_leq operands_def)
  qed
next
  case (3 h child rest s)
  show ?case by (simp add: mlex_leq)
next
  case (4 h child rest s)
  from visited_mono_dom(1)[OF 4] have "fst s \<subseteq> fst (build_topo h child s)" .
  then have "card ({..<length h} - fst (build_topo h child s)) \<le> card ({..<length h} - fst s)"
    by (intro card_mono) auto
  then show ?case by (simp add: mlex_leq)
qed

declare build_topo.simps [simp del]

text \<open>The ordering \<open>backward\<close> computes from its root.\<close>

definition topo_order :: "heap \<Rightarrow> nat \<Rightarrow> nat list" where
  "topo_order h self = snd (build_topo h self ({}, []))"

text \<open>
  \<open>for node in reversed(topo): node._backward()\<close>. An exception ends the loop; the heap
  stays as the writes before it left it.
\<close>

fun propagate :: "rounding \<Rightarrow> nat list \<Rightarrow> heap \<Rightarrow> heap \<times> error option" where
  "propagate fl [] h = (h, None)"
| "propagate fl (node # rest) h =
     (case run_rule fl (backward_rule (h ! node)) h of
        Inl e \<Rightarrow> (h, Some e)
      | Inr h' \<Rightarrow> propagate fl rest h')"

text \<open>\<open>self.grad = 1.0\<close>\<close>

definition seed :: "heap \<Rightarrow> nat \<Rightarrow> heap" where
  "seed h self = h[self := (h ! self)\<lparr>grad := 1\<rparr>]"

definition backward :: "rounding \<Rightarrow> heap \<Rightarrow> nat \<Rightarrow> heap \<times> error option" where
  "backward fl h self = propagate fl (rev (topo_order h self)) (seed h self)"


section \<open>Well-formed heaps\<close>

text \<open>
  What every heap built by the constructor and the operations above satisfies: the closure
  of the object at address \<open>v\<close> captured \<open>v\<close> itself as \<open>out\<close>, its operands were
  allocated before \<open>v\<close>, and \<open>_prev\<close> holds exactly these operands. An object made by the
  constructor alone has the closure that does nothing and no operands.
\<close>

definition rule_ok :: "nat \<Rightarrow> Value \<Rightarrow> bool" where
  "rule_ok v n =
     (case backward_rule n of
        NoOp \<Rightarrow> prev n = []
      | AddBw a b out \<Rightarrow>
          out = v \<and> a < v \<and> b < v \<and> distinct (prev n) \<and> set (prev n) = {a, b}
      | MulBw a b out \<Rightarrow>
          out = v \<and> a < v \<and> b < v \<and> distinct (prev n) \<and> set (prev n) = {a, b}
      | PowBw a k out \<Rightarrow> out = v \<and> a < v \<and> prev n = [a]
      | TanhBw a t out \<Rightarrow> out = v \<and> a < v \<and> prev n = [a]
      | ReluBw a out \<Rightarrow> out = v \<and> a < v \<and> prev n = [a]
      | ExpBw a out \<Rightarrow> out = v \<and> a < v \<and> prev n = [a])"

definition wf_heap :: "heap \<Rightarrow> bool" where
  "wf_heap h = (\<forall>v < length h. rule_ok v (h ! v))"

text \<open>An object with its gradient field blanked: what is left are all the other fields.\<close>

definition forget_grad :: "Value \<Rightarrow> Value" where
  "forget_grad n = n\<lparr>grad := 0\<rparr>"

text \<open>An argument of an operation is a number or an object of the heap.\<close>

fun arg_ok :: "heap \<Rightarrow> arg \<Rightarrow> bool" where
  "arg_ok h (Ref b) = (b < length h)"
| "arg_ok h (Num x) = True"

section \<open>The operand graph\<close>

text \<open>
  An edge leads from an operand to the object that consumes it. \<open>reachable h r\<close> are the
  objects \<open>build_topo\<close> can come to from \<open>r\<close>. \<open>operands_first h xs\<close> says that every
  operand of an element of \<open>xs\<close> stands at an earlier position of \<open>xs\<close>.
\<close>

definition edges :: "heap \<Rightarrow> (nat \<times> nat) set" where
  "edges h = {(c, v). c \<in> set (operands h v)}"

definition reachable :: "heap \<Rightarrow> nat \<Rightarrow> nat set" where
  "reachable h r = {u. (u, r) \<in> (edges h)\<^sup>*}"

definition operands_first :: "heap \<Rightarrow> nat list \<Rightarrow> bool" where
  "operands_first h xs = (\<forall>i < length xs. set (operands h (xs ! i)) \<subseteq> set (take i xs))"

text \<open>
  The state of the traversal: \<open>G\<close> are the objects whose \<open>build_topo\<close> call has marked
  them and not yet appended them.
\<close>

definition dfs_pre :: "heap \<Rightarrow> nat \<Rightarrow> nat set \<Rightarrow> nat set \<times> nat list \<Rightarrow> bool" where
  "dfs_pre h r G s =
     (case s of (visited, topo) \<Rightarrow>
        visited = set topo \<union> G \<and> set topo \<inter> G = {} \<and> operands_first h topo \<and>
        distinct topo \<and> set topo \<subseteq> reachable h r)"

section \<open>The gradient writes of a closure\<close>

text \<open>
  What a \<open>_backward\<close> closure adds to which gradient, in the order of its statements and
  read from one heap: a list of pairs of the object written and the amount added.
  \<open>received fl h nodes u\<close> are the amounts that the closures of \<open>nodes\<close>, called in this
  order, add to the gradient of \<open>u\<close>; \<open>accumulate\<close> adds a list of amounts to a gradient,
  one \<open>+=\<close> after the other.
\<close>

fun contributions :: "rounding \<Rightarrow> heap \<Rightarrow> backward_rule \<Rightarrow> error + (nat \<times> real) list" where
  "contributions fl h NoOp = Inr []"
| "contributions fl h (AddBw self other out) =
     Inr [(self, grad (h ! out)), (other, grad (h ! out))]"
| "contributions fl h (MulBw self other out) =
     Inr [(self, fl (data (h ! other) * grad (h ! out))),
          (other, fl (data (h ! self) * grad (h ! out)))]"
| "contributions fl h (PowBw self other out) =
     (case float_pow fl (data (h ! self)) (fl (other - 1)) of
        Inl e \<Rightarrow> Inl e
      | Inr p \<Rightarrow> Inr [(self, fl (fl (other * p) * grad (h ! out)))])"
| "contributions fl h (TanhBw self t out) =
     (case float_pow fl t 2 of
        Inl e \<Rightarrow> Inl e
      | Inr p \<Rightarrow> Inr [(self, fl (fl (1 - p) * grad (h ! out)))])"
| "contributions fl h (ReluBw self out) =
     Inr [(self, fl (of_bool (0 < data (h ! out)) * grad (h ! out)))]"
| "contributions fl h (ExpBw self out) =
     Inr [(self, fl (data (h ! out) * grad (h ! out)))]"

definition to_node :: "nat \<Rightarrow> (nat \<times> real) list \<Rightarrow> real list" where
  "to_node u ws = map snd (filter (\<lambda>w. fst w = u) ws)"

definition received :: "rounding \<Rightarrow> heap \<Rightarrow> nat list \<Rightarrow> nat \<Rightarrow> real list" where
  "received fl h nodes u =
     concat (map (\<lambda>c. case contributions fl h (backward_rule (h ! c)) of
                         Inl e \<Rightarrow> [] | Inr ws \<Rightarrow> to_node u ws) nodes)"

definition accumulate :: "rounding \<Rightarrow> real \<Rightarrow> real list \<Rightarrow> real" where
  "accumulate fl g cs = foldl (\<lambda>g c. fl (g + c)) g cs"

section \<open>The same graph under another iteration order\<close>

text \<open>
  Two heaps are the same graph when they agree in every field of every object except
  for the order in which an operand set is iterated. \<open>reordered h v\<close> iterates the operand
  set of \<open>v\<close> the other way round. \<open>amounts fl h c u\<close> is what the closure of \<open>c\<close> adds to
  the gradient of \<open>u\<close>.
\<close>

definition same_graph :: "heap \<Rightarrow> heap \<Rightarrow> bool" where
  "same_graph h k =
     (length h = length k \<and>
      (\<forall>v < length h. (h ! v)\<lparr>prev := []\<rparr> = (k ! v)\<lparr>prev := []\<rparr> \<and>
                       set (prev (h ! v)) = set (prev (k ! v))))"

definition amounts :: "rounding \<Rightarrow> heap \<Rightarrow> nat \<Rightarrow> nat \<Rightarrow> real list" where
  "amounts fl h c u =
     (case contributions fl h (backward_rule (h ! c)) of Inl e \<Rightarrow> [] | Inr ws \<Rightarrow> to_node u ws)"

definition reordered :: "heap \<Rightarrow> nat \<Rightarrow> heap" where
  "reordered h v = h[v := (h ! v)\<lparr>prev := rev (prev (h ! v))\<rparr>]"

section \<open>Example graphs\<close>

text \<open>\<open>Value(x)\<close> alone in an empty heap.\<close>

definition leaf :: "real \<Rightarrow> heap" where
  "leaf x = fst (Value_init [] x [] OpNone)"

text \<open>\<open>x = Value(3.0); y = x * x; z = y + x\<close>, at the addresses 0, 1 and 2.\<close>

definition diamond :: heap where
  "diamond =
     fst (add exact (fst (mul exact (fst (Value_init [] 3 [] OpNone)) 0 (Ref 0))) 1 (Ref 0))"

text \<open>\<open>x = Value(0.0); p = x ** 0\<close>, at the addresses 0 and 1.\<close>

definition pow_at_zero :: heap where
  "pow_at_zero =
     [\<lparr>data = 0, grad = 0, backward_rule = NoOp, prev = [], op = OpNone, label = []\<rparr>,
      \<lparr>data = 1, grad = 0, backward_rule = PowBw 0 0 1, prev = [0], op = OpPow 0,
         label = []\<rparr>]"

text \<open>
  \<open>x = Value(1.0); c1 = x * 1e16; c3 = x * -1e16; t = c1 + c3; c2 = x * 1.0;
  root = t + c2\<close>: the objects made are at the addresses 0 to 8, \<open>root\<close> at 8.
\<close>

definition cancelling_graph :: heap where
  "cancelling_graph =
     fst (add binary64
       (fst (mul binary64
         (fst (add binary64
           (fst (mul binary64
             (fst (mul binary64 (leaf 1) 0 (Num 10000000000000000)))
             0 (Num (- 10000000000000000))))
           2 (Ref 4)))
         0 (Num 1)))
       5 (Ref 7))"

text \<open>
  \<open>x = Value(0.0); p = x ** 0.5; q = x * 3; root = p + q\<close>, \<open>root\<close> at the
  address 4.
\<close>

definition raising_graph :: heap where
  "raising_graph =
     fst (add exact
       (fst (mul exact (fst (projr (pow exact (leaf 0) 0 (Num (1 / 2))))) 0 (Num 3)))
       1 (Ref 3))"

text \<open>\<open>x = Value(3.0); y = x ** 2\<close>, at the addresses 0 and 1.\<close>

definition squared :: heap where
  "squared = fst (projr (pow exact (leaf 3) 0 (Num 2)))"

section \<open>Rounding to binary64\<close>

text \<open>A number with a significand below \<open>2^53\<close> is a float: rounding leaves it as it is.\<close>

lemma round_half_even_int [simp]: "round_half_even (of_int n) = n"
  by (simp add: round_half_even_def)

lemma binary64_zero [simp]: "binary64 0 = 0"
  by (simp add: binary64_def)

lemma floor_log2_less:
  assumes "0 < x" "x < 2 powi j"
  shows "\<lfloor>log 2 x\<rfloor> < j"
proof -
  from assms have "log 2 x < log 2 (2 powi j)" by (simp)
  also have "log 2 (2 powi j) = of_int j"
    by (simp flip: powr_real_of_int')
  finally show ?thesis by (simp add: floor_less_iff)
qed

lemma binary64_representable:
  assumes m: "\<bar>m\<bar> < 2 ^ 53"
  shows "binary64 (of_int m * 2 powi k) = of_int m * 2 powi k"
proof (cases "m = 0")
  case True
  then show ?thesis by simp
next
  case False
  let ?x = "of_int m * 2 powi k :: real"
  have x0: "?x \<noteq> 0" using False by simp
  have ax: "\<bar>?x\<bar> = of_int \<bar>m\<bar> * 2 powi k" by (simp add: abs_mult)
  have "(of_int \<bar>m\<bar> :: real) < of_int (2 ^ 53)" using m by (simp only: of_int_less_iff)
  then have "of_int \<bar>m\<bar> < (2::real) ^ 53" by simp
  then have "\<bar>?x\<bar> < 2 powi 53 * 2 powi k"
    unfolding ax by (intro mult_strict_right_mono) auto
  then have "\<bar>?x\<bar> < 2 powi (53 + k)" by (simp add: power_int_add)
  with x0 have "\<lfloor>log 2 \<bar>?x\<bar>\<rfloor> < 53 + k" by (intro floor_log2_less) auto
  then have "0 \<le> k - (\<lfloor>log 2 \<bar>?x\<bar>\<rfloor> - 52)" by simp
  then obtain n :: nat where n: "k - (\<lfloor>log 2 \<bar>?x\<bar>\<rfloor> - 52) = int n"
    using nonneg_int_cases by blast
  let ?e = "\<lfloor>log 2 \<bar>?x\<bar>\<rfloor> - 52"
  have k: "k = ?e + int n" using n by simp
  have "?x / 2 powi ?e = of_int m * 2 powi (k - ?e)"
    by (simp add: power_int_diff)
  also have "\<dots> = of_int (m * 2 ^ n)" by (simp add: n)
  finally have q: "?x / 2 powi ?e = of_int (m * 2 ^ n)" .
  have "binary64 ?x = of_int (round_half_even (?x / 2 powi ?e)) * 2 powi ?e"
    using x0 by (simp add: binary64_def Let_def)
  also have "\<dots> = of_int (m * 2 ^ n) * 2 powi ?e"
    by (simp only: q round_half_even_int)
  also have "\<dots> = of_int m * (2 powi int n * 2 powi ?e)" by simp
  also have "2 powi int n * 2 powi ?e = (2::real) powi k"
    by (subst k) (simp add: power_int_add)
  finally show ?thesis .
qed

lemma binary64_int: "\<bar>m\<bar> < 2 ^ 53 \<Longrightarrow> binary64 (of_int m) = of_int m"
  using binary64_representable[of m 0] by simp

lemma binary64_1 [simp]: "binary64 1 = 1"
  using binary64_int[of 1] by simp

lemma binary64_numeral:
  "numeral w < (2::int) ^ 53 \<Longrightarrow> binary64 (numeral w) = numeral w"
  "numeral w < (2::int) ^ 53 \<Longrightarrow> binary64 (- numeral w) = - numeral w"
  using binary64_int[of "numeral w"] binary64_int[of "- numeral w"] by simp_all

lemma binary64_m1 [simp]: "binary64 (- 1) = - 1"
  using binary64_int[of "- 1"] by simp

lemma binary64_1e16 [simp]: "binary64 10000000000000000 = 10000000000000000"
  "binary64 (- 10000000000000000) = - 10000000000000000"
  using binary64_representable[of 152587890625 16] binary64_representable[of "- 152587890625" 16]
  by simp_all

lemma floor_log2_1e16: "\<lfloor>log 2 9999999999999999\<rfloor> = 53"
proof -
  have "(2::real) powr of_int 53 \<le> 9999999999999999 \<and> (9999999999999999::real) < 2 powr of_int (53 + 1)"
    by (simp add: powr_numeral)
  then show ?thesis
    using floor_log_eq_powr_iff[of 9999999999999999 2 53] by simp
qed

text \<open>A tie: \<open>1 - 1e16\<close> lies halfway between two floats and goes to the even one.\<close>

lemma binary64_tie [simp]: "binary64 (- 9999999999999999) = - 10000000000000000"
  by (simp add: binary64_def floor_log2_1e16 round_half_even_def Let_def)

text \<open>The largest float is far above every number the examples compute.\<close>

lemma float_max_large: "2 ^ 53 \<le> float_max"
  by (simp add: float_max_def)

lemma overflows_small: "\<bar>fl r\<bar> \<le> 9007199254740992 \<Longrightarrow> overflows fl r = False"
  using float_max_large by (simp add: overflows_def)

text \<open>Rounding never goes below a power of two that the number has reached.\<close>

lemma round_half_even_ge_floor: "\<lfloor>m\<rfloor> \<le> round_half_even m"
  by (simp add: round_half_even_def Let_def)

lemma binary64_ge_pow2:
  assumes "2 powi k \<le> x"
  shows "2 powi k \<le> binary64 x"
proof -
  have x0: "0 < x" using assms by (rule less_le_trans[rotated]) simp
  let ?L = "\<lfloor>log 2 x\<rfloor>"
  let ?e = "?L - 52"
  have "of_int k \<le> log 2 x"
    using assms x0 by (simp add: le_log_iff powr_real_of_int')
  then have kL: "k \<le> ?L" by (simp add: le_floor_iff)
  have "of_int ?L \<le> log 2 x" by simp
  then have "2 powr (of_int ?L) \<le> x"
    using x0 le_log_iff[of 2 x "of_int ?L"] by simp
  then have Lx: "2 powi ?L \<le> x"
    using powr_real_of_int'[of 2 "?L"] by simp
  have "(2::real) powi 52 = 2 powi ?L / 2 powi ?e" by (simp add: power_int_diff)
  also have "\<dots> \<le> x / 2 powi ?e" using Lx by (simp add: divide_right_mono)
  finally have m: "of_int (2 ^ 52) \<le> x / 2 powi ?e" by simp
  then have "(2::int) ^ 52 \<le> \<lfloor>x / 2 powi ?e\<rfloor>" by (rule iffD2[OF le_floor_iff])
  then have "2 ^ 52 \<le> round_half_even (x / 2 powi ?e)"
    using round_half_even_ge_floor[of "x / 2 powi ?e"] by (rule order_trans)
  then have "(2::real) ^ 52 \<le> of_int (round_half_even (x / 2 powi ?e))"
    by (metis of_int_le_iff of_int_numeral of_int_power)
  then have A: "(2::real) ^ 52 * 2 powi ?e \<le> of_int (round_half_even (x / 2 powi ?e)) * 2 powi ?e"
    by (intro mult_right_mono) simp_all
  have B: "(2::real) ^ 52 * 2 powi ?e = 2 powi ?L"
    using power_int_add[of "2::real" 52 ?e] by simp
  have C: "binary64 x = of_int (round_half_even (x / 2 powi ?e)) * 2 powi ?e"
    using x0 by (simp add: binary64_def Let_def)
  from A have "2 powi ?L \<le> binary64 x" unfolding B C[symmetric] .
  moreover have "(2::real) powi k \<le> 2 powi ?L" using kL by (simp add: power_int_increasing)
  ultimately show ?thesis by simp
qed

lemma overflows_binary64_1e400: "overflows binary64 (10 ^ 400)"
proof -
  have "(2::real) powi 1024 \<le> 10 ^ 400" by simp
  then have "2 powi 1024 \<le> binary64 (10 ^ 400)" by (rule binary64_ge_pow2)
  moreover have "float_max < 2 powi 1024" by (simp add: float_max_def)
  ultimately show ?thesis by (simp add: overflows_def)
qed

section \<open>The operations keep the heap well-formed\<close>

lemma wf_heap_snoc:
  "wf_heap h \<Longrightarrow> rule_ok (length h) n \<Longrightarrow> wf_heap (h @ [n])"
  by (auto simp: wf_heap_def nth_append less_Suc_eq)

lemma wf_coerce:
  "wf_heap h \<Longrightarrow> arg_ok h other \<Longrightarrow> coerce h other = (h1, b) \<Longrightarrow>
   wf_heap h1 \<and> b < length h1 \<and> prefix h h1"
  by (cases other) (auto simp: Value_init_def rule_ok_def intro!: wf_heap_snoc)

lemma wf_new_node:
  "wf_heap h \<Longrightarrow> Value_init h d cs tag = (h1, out) \<Longrightarrow> rule_ok (length h) ((h1 ! out)\<lparr>backward_rule := r\<rparr>) \<Longrightarrow>
   wf_heap (set_backward h1 out r) \<and> out = length h \<and> prefix h (set_backward h1 out r)
   \<and> length (set_backward h1 out r) = Suc (length h)"
  by (auto simp: Value_init_def set_backward_def intro!: wf_heap_snoc)

lemma wf_add:
  assumes "wf_heap h" "self < length h" "arg_ok h other" "add fl h self other = (h', out)"
  shows "wf_heap h' \<and> out < length h' \<and> prefix h h'"
proof -
  obtain h1 b where c: "coerce h other = (h1, b)" by (cases "coerce h other")
  from wf_coerce[OF assms(1,3) c] have 1: "wf_heap h1" "b < length h1" "prefix h h1" by auto
  then have l: "self < length h1" using assms(2) by (auto dest: prefix_length_le)
  obtain h2 out' where v: "Value_init h1 (fl (data (h1 ! self) + data (h1 ! b))) [self, b] OpAdd = (h2, out')"
    by (cases "Value_init h1 (fl (data (h1 ! self) + data (h1 ! b))) [self, b] OpAdd")
  have "rule_ok (length h1) ((h2 ! out')\<lparr>backward_rule := AddBw self b out'\<rparr>)"
    using v l 1 by (auto simp: Value_init_def rule_ok_def split: if_splits)
  from wf_new_node[OF 1(1) v this] c v assms(4) 1(3) show ?thesis
    by (auto simp: add_def)
qed


lemma wf_mul:
  assumes "wf_heap h" "self < length h" "arg_ok h other" "mul fl h self other = (h', out)"
  shows "wf_heap h' \<and> out < length h' \<and> prefix h h'"
proof -
  obtain h1 b where c: "coerce h other = (h1, b)" by (cases "coerce h other")
  from wf_coerce[OF assms(1,3) c] have 1: "wf_heap h1" "b < length h1" "prefix h h1" by auto
  then have l: "self < length h1" using assms(2) by (auto dest: prefix_length_le)
  obtain h2 out' where v: "Value_init h1 (fl (data (h1 ! self) * data (h1 ! b))) [self, b] OpMul = (h2, out')"
    by (cases "Value_init h1 (fl (data (h1 ! self) * data (h1 ! b))) [self, b] OpMul")
  have "rule_ok (length h1) ((h2 ! out')\<lparr>backward_rule := MulBw self b out'\<rparr>)"
    using v l 1 by (auto simp: Value_init_def rule_ok_def split: if_splits)
  from wf_new_node[OF 1(1) v this] c v assms(4) 1(3) show ?thesis
    by (auto simp: mul_def)
qed

lemma wf_pow:
  assumes "wf_heap h" "self < length h" "pow fl h self other = Inr (h', out)"
  shows "wf_heap h' \<and> out < length h' \<and> prefix h h'"
proof (cases other)
  case (Ref b)
  with assms show ?thesis by simp
next
  case (Num n)
  with assms(3) obtain p where p: "float_pow fl (data (h ! self)) n = Inr p"
    by (auto split: sum.splits)
  obtain h1 out' where v: "Value_init h p [self] (OpPow n) = (h1, out')"
    by (cases "Value_init h p [self] (OpPow n)")
  have "rule_ok (length h) ((h1 ! out')\<lparr>backward_rule := PowBw self n out'\<rparr>)"
    using v assms(2) by (auto simp: Value_init_def rule_ok_def)
  from wf_new_node[OF assms(1) v this] p v assms(3) Num show ?thesis
    by auto
qed

lemma wf_tanh:
  assumes "wf_heap h" "self < length h" "tanh_op fl h self = Inr (h', out)"
  shows "wf_heap h' \<and> out < length h' \<and> prefix h h'"
proof -
  from assms(3) obtain t where t: "tanh_value fl (data (h ! self)) = Inr t"
    by (auto simp: tanh_op_def split: sum.splits)
  obtain h1 out' where v: "Value_init h t [self] OpTanh = (h1, out')"
    by (cases "Value_init h t [self] OpTanh")
  have "rule_ok (length h) ((h1 ! out')\<lparr>backward_rule := TanhBw self t out'\<rparr>)"
    using v assms(2) by (auto simp: Value_init_def rule_ok_def)
  from wf_new_node[OF assms(1) v this] t v assms(3) show ?thesis
    by (auto simp: tanh_op_def)
qed

lemma wf_relu:
  assumes "wf_heap h" "self < length h" "relu h self = (h', out)"
  shows "wf_heap h' \<and> out < length h' \<and> prefix h h'"
proof -
  obtain h1 out' where v: "Value_init h (if data (h ! self) < 0 then 0 else data (h ! self)) [self] OpReLU = (h1, out')"
    by (cases "Value_init h (if data (h ! self) < 0 then 0 else data (h ! self)) [self] OpReLU")
  have "rule_ok (length h) ((h1 ! out')\<lparr>backward_rule := ReluBw self out'\<rparr>)"
    using v assms(2) by (auto simp: Value_init_def rule_ok_def)
  from wf_new_node[OF assms(1) v this] v assms(3) show ?thesis
    by (auto simp: relu_def)
qed

lemma wf_exp:
  assumes "wf_heap h" "self < length h" "exp_op fl h self = Inr (h', out)"
  shows "wf_heap h' \<and> out < length h' \<and> prefix h h'"
proof -
  from assms(3) obtain y where y: "float_exp fl (data (h ! self)) = Inr y"
    by (auto simp: exp_op_def split: sum.splits)
  obtain h1 out' where v: "Value_init h y [self] OpExp = (h1, out')"
    by (cases "Value_init h y [self] OpExp")
  have "rule_ok (length h) ((h1 ! out')\<lparr>backward_rule := ExpBw self out'\<rparr>)"
    using v assms(2) by (auto simp: Value_init_def rule_ok_def)
  from wf_new_node[OF assms(1) v this] y v assms(3) show ?thesis
    by (auto simp: exp_op_def)
qed

lemma wf_neg:
  "wf_heap h \<Longrightarrow> self < length h \<Longrightarrow> neg fl h self = (h', out) \<Longrightarrow>
   wf_heap h' \<and> out < length h' \<and> prefix h h'"
  using wf_mul[of h self "Num (- 1)" fl h' out] by (simp add: neg_def)

lemma wf_sub:
  assumes "wf_heap h" "self < length h" "arg_ok h other" "sub fl h self other = (h', out)"
  shows "wf_heap h' \<and> out < length h' \<and> prefix h h'"
proof (cases other)
  case (Num x)
  with assms wf_add[of h self "Num (- x)" fl h' out] show ?thesis by simp
next
  case (Ref b)
  obtain h1 nb where n: "neg fl h b = (h1, nb)" by (cases "neg fl h b")
  from wf_neg[OF assms(1) _ n] assms(3) Ref have 1: "wf_heap h1" "nb < length h1" "prefix h h1"
    by auto
  then have l: "self < length h1" using assms(2) by (auto dest: prefix_length_le)
  from assms(4) Ref n have "add fl h1 self (Ref nb) = (h', out)" by simp
  from wf_add[OF 1(1) l _ this] 1 show ?thesis by auto
qed

lemma wf_rsub:
  assumes "wf_heap h" "self < length h" "rsub fl h self other = (h', out)"
  shows "wf_heap h' \<and> out < length h' \<and> prefix h h'"
proof -
  obtain h1 ns where n: "neg fl h self = (h1, ns)" by (cases "neg fl h self")
  from wf_neg[OF assms(1,2) n] have 1: "wf_heap h1" "ns < length h1" "prefix h h1" by auto
  from assms(3) n have "add fl h1 ns (Num other) = (h', out)" by (simp add: rsub_def radd_def)
  from wf_add[OF 1(1,2) _ this] 1 show ?thesis by auto
qed

lemma wf_truediv:
  assumes "wf_heap h" "self < length h" "arg_ok h other" "truediv fl h self other = Inr (h', out)"
  shows "wf_heap h' \<and> out < length h' \<and> prefix h h'"
proof (cases other)
  case (Num x)
  with assms(4) obtain r where "float_pow fl x (- 1) = Inr r" "mul fl h self (Num r) = (h', out)"
    by (auto split: sum.splits)
  with wf_mul[OF assms(1,2), of "Num r" fl h' out] show ?thesis by simp
next
  case (Ref b)
  with assms(4) obtain h1 r where p: "pow fl h b (Num (- 1)) = Inr (h1, r)"
      and m: "mul fl h1 self (Ref r) = (h', out)"
    by (auto split: sum.splits)
  from wf_pow[OF assms(1) _ p] assms(3) Ref have 1: "wf_heap h1" "r < length h1" "prefix h h1"
    by auto
  then have l: "self < length h1" using assms(2) by (auto dest: prefix_length_le)
  from wf_mul[OF 1(1) l _ m] 1 show ?thesis by auto
qed

lemma wf_rtruediv:
  assumes "wf_heap h" "self < length h" "rtruediv fl h self other = Inr (h', out)"
  shows "wf_heap h' \<and> out < length h' \<and> prefix h h'"
proof -
  from assms(3) obtain h1 r where p: "pow fl h self (Num (- 1)) = Inr (h1, r)"
      and m: "mul fl h1 r (Num other) = (h', out)"
    by (auto simp: rtruediv_def rmul_def split: sum.splits)
  from wf_pow[OF assms(1,2) p] have 1: "wf_heap h1" "r < length h1" "prefix h h1" by auto
  from wf_mul[OF 1(1,2) _ m] 1 show ?thesis by auto
qed

lemma wf_Value_init:
  "wf_heap h \<Longrightarrow> Value_init h d [] OpNone = (h', out) \<Longrightarrow>
   wf_heap h' \<and> out < length h' \<and> prefix h h'"
  by (auto simp: Value_init_def rule_ok_def intro!: wf_heap_snoc)

lemma wf_empty: "wf_heap []"
  by (simp add: wf_heap_def)

section \<open>The backward pass writes gradients only\<close>

lemma length_add_grad [simp]: "length (add_grad fl h a c) = length h"
  by (simp add: add_grad_def)

lemma forget_add_grad: "map forget_grad (add_grad fl h a c) = map forget_grad h"
  by (cases "a < length h")
     (auto simp: add_grad_def forget_grad_def nth_list_update intro!: nth_equalityI)

lemma forget_run_rule: "run_rule fl r h = Inr h' \<Longrightarrow> map forget_grad h' = map forget_grad h"
  by (cases r) (auto simp: forget_add_grad Let_def split: sum.splits)

lemma forget_propagate: "map forget_grad (fst (propagate fl vs h)) = map forget_grad h"
proof (induction vs arbitrary: h)
  case Nil
  show ?case by simp
next
  case (Cons v vs)
  show ?case
  proof (cases "run_rule fl (backward_rule (h ! v)) h")
    case (Inl e)
    then show ?thesis by simp
  next
    case (Inr h')
    with Cons.IH[of h'] forget_run_rule[OF Inr] show ?thesis by simp
  qed
qed

lemma forget_seed: "map forget_grad (seed h v) = map forget_grad h"
  by (cases "v < length h")
     (auto simp: seed_def forget_grad_def nth_list_update intro!: nth_equalityI)

text \<open>
  Claim C10. \<open>backward()\<close> never modifies a value field or an operand collection: the heap
  after the call, whether the call returned or raised, equals the heap before it in every
  field of every object except \<open>grad\<close>.
\<close>

theorem backward_frame: "map forget_grad (fst (backward fl h self)) = map forget_grad h"
  by (simp add: backward_def forget_propagate forget_seed)

section \<open>A root without operands\<close>

lemma topo_leaf: "operands h v = [] \<Longrightarrow> topo_order h v = [v]"
  by (simp add: topo_order_def build_topo.simps)

text \<open>
  Claim C8. \<open>backward()\<close> on an object with an empty operand collection sets that object's
  gradient to 1.0 and changes nothing else: the call returns, and the heap after it is the
  heap before it with this one field written.
\<close>

theorem backward_leaf:
  "wf_heap h \<Longrightarrow> self < length h \<Longrightarrow> operands h self = [] \<Longrightarrow>
   backward fl h self = (h[self := (h ! self)\<lparr>grad := 1\<rparr>], None)"
proof -
  assume wf: "wf_heap h" and l: "self < length h" and e: "operands h self = []"
  from wf l have "rule_ok self (h ! self)" by (simp add: wf_heap_def)
  with e l have "backward_rule (h ! self) = NoOp"
    by (auto simp: rule_ok_def operands_def split: backward_rule.splits)
  with l show ?thesis
    by (simp add: backward_def topo_leaf[OF e] seed_def)
qed

theorem backward_leaf_witness:
  "wf_heap (fst (Value_init [] 3 [] OpNone)) \<and> 0 < length (fst (Value_init [] 3 [] OpNone))
   \<and> operands (fst (Value_init [] 3 [] OpNone)) 0 = []
   \<and> backward binary64 (fst (Value_init [] 3 [] OpNone)) 0
       = ([\<lparr>data = 3, grad = 1, backward_rule = NoOp, prev = [], op = OpNone, label = []\<rparr>],
          None)"
  using backward_leaf [of "fst (Value_init [] 3 [] OpNone)" 0 binary64]
  by (simp add: Value_init_def wf_heap_def rule_ok_def operands_def)

section \<open>The topological ordering\<close>

lemma operands_first_snoc:
  "operands_first h xs \<Longrightarrow> set (operands h v) \<subseteq> set xs \<Longrightarrow> operands_first h (xs @ [v])"
  by (auto simp: operands_first_def nth_append less_Suc_eq)

lemma operands_first_closed:
  "operands_first h xs \<Longrightarrow> u \<in> set xs \<Longrightarrow> c \<in> set (operands h u) \<Longrightarrow> c \<in> set xs"
proof -
  assume o: "operands_first h xs" and u: "u \<in> set xs" and c: "c \<in> set (operands h u)"
  from u obtain i where "i < length xs" "xs ! i = u" by (auto simp: in_set_conv_nth)
  with o c have "c \<in> set (take i xs)" by (auto simp: operands_first_def)
  then show ?thesis by (rule in_set_takeD)
qed

lemma dfs_invariant:
  shows "acyclic (edges h) \<Longrightarrow> \<forall>G. dfs_pre h r G s \<longrightarrow> (\<forall>g\<in>G. (v, g) \<in> (edges h)\<^sup>+) \<longrightarrow> v \<in> reachable h r \<longrightarrow>
           dfs_pre h r G (build_topo h v s) \<and> v \<in> set (snd (build_topo h v s)) \<and>
           set (snd s) \<subseteq> set (snd (build_topo h v s))"
    and "acyclic (edges h) \<Longrightarrow> \<forall>G. dfs_pre h r G s \<longrightarrow> (\<forall>g\<in>G. \<forall>c\<in>set cs. (c, g) \<in> (edges h)\<^sup>+) \<longrightarrow>
           set cs \<subseteq> reachable h r \<longrightarrow>
           dfs_pre h r G (build_topo_children h cs s) \<and>
           set cs \<subseteq> set (snd (build_topo_children h cs s)) \<and>
           set (snd s) \<subseteq> set (snd (build_topo_children h cs s))"
proof (induction h v s and h cs s rule: build_topo_build_topo_children.induct)
  case (1 h v visited topo)
  show ?case
  proof (intro allI impI)
    fix G
    assume pre: "dfs_pre h r G (visited, topo)"
      and gray: "\<forall>g\<in>G. (v, g) \<in> (edges h)\<^sup>+"
      and vr: "v \<in> reachable h r"
    from gray "1.prems" have vG: "v \<notin> G" by (auto simp: acyclic_def)
    show "dfs_pre h r G (build_topo h v (visited, topo)) \<and>
          v \<in> set (snd (build_topo h v (visited, topo))) \<and>
          set (snd (visited, topo)) \<subseteq> set (snd (build_topo h v (visited, topo)))"
    proof (cases "v \<in> visited")
      case True
      with pre vG have "v \<in> set topo" by (auto simp: dfs_pre_def)
      with True pre show ?thesis by (simp add: build_topo.simps)
    next
      case False
      let ?s = "(insert v visited, topo)"
      let ?res = "build_topo_children h (operands h v) ?s"
      have pre': "dfs_pre h r (insert v G) ?s"
        using pre False by (auto simp: dfs_pre_def)
      have gray': "\<forall>g\<in>insert v G. \<forall>c\<in>set (operands h v). (c, g) \<in> (edges h)\<^sup>+"
      proof (intro ballI)
        fix g c assume "g \<in> insert v G" "c \<in> set (operands h v)"
        then have e: "(c, v) \<in> edges h" by (simp add: edges_def)
        show "(c, g) \<in> (edges h)\<^sup>+"
        proof (cases "g = v")
          case True with e show ?thesis by auto
        next
          case False
          with \<open>g \<in> insert v G\<close> gray have "(v, g) \<in> (edges h)\<^sup>+" by auto
          with e show ?thesis by (rule trancl_into_trancl2)
        qed
      qed
      have reach': "set (operands h v) \<subseteq> reachable h r"
        using vr by (auto simp: reachable_def edges_def intro: converse_rtrancl_into_rtrancl)
      from "1.IH"[OF False "1.prems"] pre' gray' reach'
      have res: "dfs_pre h r (insert v G) ?res" "set (operands h v) \<subseteq> set (snd ?res)"
        "set topo \<subseteq> set (snd ?res)"
        by auto
      obtain vis' topo' where r: "?res = (vis', topo')" by (cases ?res)
      from False r have bt: "build_topo h v (visited, topo) = (vis', topo' @ [v])"
        by (simp add: build_topo.simps)
      from res r vG vr have "dfs_pre h r G (vis', topo' @ [v])"
        by (auto simp: dfs_pre_def intro: operands_first_snoc)
      with bt res r show ?thesis by auto
    qed
  qed
next
  case (2 h s)
  then show ?case by simp
next
  case (3 h child rest s)
  show ?case
  proof (intro allI impI)
    fix G
    assume pre: "dfs_pre h r G s"
      and gray: "\<forall>g\<in>G. \<forall>c\<in>set (child # rest). (c, g) \<in> (edges h)\<^sup>+"
      and reach: "set (child # rest) \<subseteq> reachable h r"
    from "3.IH"(1)[OF "3.prems"] pre gray reach
    have s1: "dfs_pre h r G (build_topo h child s)" "child \<in> set (snd (build_topo h child s))"
      "set (snd s) \<subseteq> set (snd (build_topo h child s))"
      by auto
    from "3.IH"(2)[OF "3.prems"] s1(1) gray reach
    have s2: "dfs_pre h r G (build_topo_children h rest (build_topo h child s))"
      "set rest \<subseteq> set (snd (build_topo_children h rest (build_topo h child s)))"
      "set (snd (build_topo h child s)) \<subseteq> set (snd (build_topo_children h rest (build_topo h child s)))"
      by auto
    with s1 show "dfs_pre h r G (build_topo_children h (child # rest) s) \<and>
          set (child # rest) \<subseteq> set (snd (build_topo_children h (child # rest) s)) \<and>
          set (snd s) \<subseteq> set (snd (build_topo_children h (child # rest) s))"
      by auto
  qed
qed

lemma wf_operands_less: "wf_heap h \<Longrightarrow> c \<in> set (operands h v) \<Longrightarrow> c < v"
proof -
  assume wf: "wf_heap h" and c: "c \<in> set (operands h v)"
  from c have l: "v < length h" and p: "c \<in> set (prev (h ! v))"
    by (auto simp: operands_def split: if_splits)
  from wf l have "rule_ok v (h ! v)" by (simp add: wf_heap_def)
  with p show ?thesis
    by (cases "backward_rule (h ! v)") (auto simp: rule_ok_def)
qed

lemma wf_acyclic: "wf_heap h \<Longrightarrow> acyclic (edges h)"
proof -
  assume "wf_heap h"
  then have "edges h \<subseteq> {(x, y). x < y}"
    by (auto simp: edges_def dest: wf_operands_less)
  moreover have "acyclic {(x::nat, y). x < y}"
    using wf_less by (rule wf_acyclic)
  ultimately show ?thesis by (rule acyclic_subset[rotated])
qed

lemma topo_order_dfs:
  assumes "acyclic (edges h)"
  shows "distinct (topo_order h r)" "operands_first h (topo_order h r)"
    "set (topo_order h r) \<subseteq> reachable h r" "r \<in> set (topo_order h r)"
proof -
  have pre: "dfs_pre h r {} ({}, [])"
    by (simp add: dfs_pre_def operands_first_def)
  have "r \<in> reachable h r" by (simp add: reachable_def)
  with dfs_invariant(1)[OF assms, of r "({}, [])" r] pre
  have res: "dfs_pre h r {} (build_topo h r ({}, []))" "r \<in> set (topo_order h r)"
    by (auto simp: topo_order_def)
  then show "distinct (topo_order h r)" "operands_first h (topo_order h r)"
    "set (topo_order h r) \<subseteq> reachable h r" "r \<in> set (topo_order h r)"
    by (auto simp: dfs_pre_def topo_order_def split: prod.splits)
qed

lemma topo_order_set:
  assumes "acyclic (edges h)"
  shows "set (topo_order h r) = reachable h r"
proof -
  note dfs = topo_order_dfs [OF assms, of r]
  have "u \<in> set (topo_order h r)" if "(u, r) \<in> (edges h)\<^sup>*" for u
    using that
  proof (induction rule: converse_rtrancl_induct)
    case base
    from dfs(4) show ?case .
  next
    case (step y z)
    then show ?case using operands_first_closed[OF dfs(2)] by (auto simp: edges_def)
  qed
  with dfs(3) show ?thesis by (auto simp: reachable_def)
qed

lemma diamond_eq: "diamond =
  [\<lparr>data = 3, grad = 0, backward_rule = NoOp, prev = [], op = OpNone, label = []\<rparr>,
   \<lparr>data = 9, grad = 0, backward_rule = MulBw 0 0 1, prev = [0], op = OpMul, label = []\<rparr>,
   \<lparr>data = 12, grad = 0, backward_rule = AddBw 1 0 2, prev = [1, 0], op = OpAdd,
      label = []\<rparr>]"
  by (simp add: diamond_def add_def mul_def Value_init_def set_backward_def exact_def)

lemma wf_diamond: "wf_heap diamond"
  by (simp add: diamond_eq wf_heap_def rule_ok_def less_Suc_eq numeral_3_eq_3 all_conj_distrib)

lemma topo_diamond: "topo_order diamond 2 = [0, 1, 2]"
  by (simp add: diamond_eq topo_order_def build_topo.simps operands_def)

text \<open>
  Claim C3. For every acyclic graph, the ordering \<open>backward()\<close> computes holds each
  object reachable from the root exactly once and no other, and every operand stands
  strictly before each object that consumes it. Objects are addresses: two objects with
  equal fields are two elements of the ordering.
\<close>

theorem topo_order_valid:
  assumes "acyclic (edges h)"
  shows "distinct (topo_order h r) \<and> set (topo_order h r) = reachable h r \<and>
         operands_first h (topo_order h r)"
proof -
  from assms have "distinct (topo_order h r)" by (rule topo_order_dfs(1))
  moreover from assms have "set (topo_order h r) = reachable h r" by (rule topo_order_set)
  moreover from assms have "operands_first h (topo_order h r)" by (rule topo_order_dfs(2))
  ultimately show ?thesis by simp
qed

theorem topo_order_valid_witness:
  "acyclic (edges diamond) \<and> topo_order diamond 2 = [0, 1, 2] \<and>
   distinct (topo_order diamond 2) \<and> set (topo_order diamond 2) = reachable diamond 2 \<and>
   operands_first diamond (topo_order diamond 2)"
  using topo_order_valid [of diamond 2] wf_acyclic [OF wf_diamond] topo_diamond by simp

section \<open>Gradients accumulate\<close>

lemma nth_add_grad:
  "u < length h \<Longrightarrow>
   add_grad fl h a c ! u = (if u = a then (h ! u)\<lparr>grad := fl (grad (h ! u) + c)\<rparr> else h ! u)"
  by (simp add: add_grad_def nth_list_update)

lemma forget_eq_nth:
  assumes "map forget_grad h = map forget_grad k" "v < length h"
  shows "data (h ! v) = data (k ! v)" "backward_rule (h ! v) = backward_rule (k ! v)"
    "prev (h ! v) = prev (k ! v)"
proof -
  from assms have l: "length h = length k" by (metis length_map)
  from assms l have "forget_grad (h ! v) = forget_grad (k ! v)"
    by (metis nth_map)
  then show "data (h ! v) = data (k ! v)" "backward_rule (h ! v) = backward_rule (k ! v)"
    "prev (h ! v) = prev (k ! v)"
    by (auto simp: forget_grad_def dest: arg_cong[where f = data] arg_cong[where f = backward_rule] arg_cong[where f = prev])
qed

lemma forget_eq_length: "map forget_grad h = map forget_grad k \<Longrightarrow> length h = length k"
  by (metis length_map)

lemma forget_eq_wf:
  assumes "map forget_grad h = map forget_grad k" "wf_heap h"
  shows "wf_heap k"
proof -
  have "rule_ok v (k ! v)" if "v < length k" for v
  proof -
    from that forget_eq_length[OF assms(1)] have l: "v < length h" by simp
    with assms(2) have "rule_ok v (h ! v)" by (simp add: wf_heap_def)
    then show ?thesis
      unfolding rule_ok_def forget_eq_nth(2,3)[OF assms(1) l] .
  qed
  then show ?thesis by (simp add: wf_heap_def)
qed

lemma forget_eq_operands:
  "map forget_grad h = map forget_grad k \<Longrightarrow> operands h v = operands k v"
  using forget_eq_length[of h k] forget_eq_nth(3)[of h k v] by (auto simp: operands_def)


lemma targets_are_operands:
  assumes ok: "rule_ok c (k ! c)" and ws: "contributions fl h (backward_rule (k ! c)) = Inr ws"
  shows "fst ` set ws \<subseteq> set (prev (k ! c))"
proof (cases "backward_rule (k ! c)")
  case NoOp
  with ws show ?thesis by simp
next
  case (AddBw a b out)
  with ok have "a \<in> set (prev (k ! c))" "b \<in> set (prev (k ! c))"
    by (auto simp: rule_ok_def)
  moreover from ws AddBw have "ws = [(a, snd (ws ! 0)), (b, snd (ws ! 1))]" by auto
  ultimately show ?thesis by (metis (no_types, lifting) empty_subsetI fst_conv image_insert image_empty insert_subset list.simps(15) set_empty2)
next
  case (MulBw a b out)
  with ok have "a \<in> set (prev (k ! c))" "b \<in> set (prev (k ! c))"
    by (auto simp: rule_ok_def)
  moreover from ws MulBw have "ws = [(a, snd (ws ! 0)), (b, snd (ws ! 1))]" by auto
  ultimately show ?thesis by (metis (no_types, lifting) empty_subsetI fst_conv image_insert image_empty insert_subset list.simps(15) set_empty2)
next
  case (PowBw a n out)
  with ok have "prev (k ! c) = [a]" by (auto simp: rule_ok_def)
  with ws PowBw show ?thesis
    by (cases "float_pow fl (data (h ! a)) (fl (n - 1))") auto
next
  case (TanhBw a t out)
  with ok have "prev (k ! c) = [a]" by (auto simp: rule_ok_def)
  with ws TanhBw show ?thesis
    by (cases "float_pow fl t 2") auto
next
  case (ReluBw a out)
  with ok have "prev (k ! c) = [a]" by (auto simp: rule_ok_def)
  with ws ReluBw show ?thesis by auto
next
  case (ExpBw a out)
  with ok have "prev (k ! c) = [a]" by (auto simp: rule_ok_def)
  with ws ExpBw show ?thesis by auto
qed

lemma to_node_empty: "u \<notin> fst ` set ws \<Longrightarrow> to_node u ws = []"
  by (auto simp: to_node_def filter_empty_conv)

lemma accumulate_append:
  "accumulate fl g (xs @ ys) = accumulate fl (accumulate fl g xs) ys"
  by (simp add: accumulate_def)

lemma run_rule_accumulates:
  assumes ok: "rule_ok c (h ! c)" and c: "c < length h"
  shows "case run_rule fl (backward_rule (h ! c)) h of
           Inl e \<Rightarrow> contributions fl h (backward_rule (h ! c)) = Inl e
         | Inr h1 \<Rightarrow> (\<exists>ws. contributions fl h (backward_rule (h ! c)) = Inr ws \<and>
              (\<forall>u < length h. grad (h1 ! u) = accumulate fl (grad (h ! u)) (to_node u ws)))"
proof (cases "backward_rule (h ! c)")
  case NoOp
  then show ?thesis by (simp add: to_node_def accumulate_def)
next
  case (AddBw a b out)
  with ok have "out = c" "a < c" "b < c" by (auto simp: rule_ok_def)
  with c AddBw show ?thesis
    by (auto simp: Let_def nth_add_grad to_node_def accumulate_def)
next
  case (MulBw a b out)
  with ok have "out = c" "a < c" "b < c" by (auto simp: rule_ok_def)
  with c MulBw show ?thesis
    by (auto simp: Let_def nth_add_grad to_node_def accumulate_def)
next
  case (PowBw a n out)
  with ok have "out = c" "a < c" by (auto simp: rule_ok_def)
  with c PowBw show ?thesis
    by (auto simp: Let_def nth_add_grad to_node_def accumulate_def split: sum.splits)
next
  case (TanhBw a t out)
  with ok have "out = c" "a < c" by (auto simp: rule_ok_def)
  with c TanhBw show ?thesis
    by (auto simp: Let_def nth_add_grad to_node_def accumulate_def split: sum.splits)
next
  case (ReluBw a out)
  with ok have "out = c" "a < c" by (auto simp: rule_ok_def)
  with c ReluBw show ?thesis
    by (auto simp: Let_def nth_add_grad to_node_def accumulate_def)
next
  case (ExpBw a out)
  with ok have "out = c" "a < c" by (auto simp: rule_ok_def)
  with c ExpBw show ?thesis
    by (auto simp: Let_def nth_add_grad to_node_def accumulate_def)
qed

lemma contributions_cong:
  assumes f: "map forget_grad h = map forget_grad k" and ok: "rule_ok c (h ! c)"
    and c: "c < length h" and g: "grad (h ! c) = grad (k ! c)"
  shows "contributions fl k (backward_rule (k ! c)) = contributions fl h (backward_rule (h ! c))"
proof -
  note d = forget_eq_nth(1)[OF f]
  have r: "backward_rule (k ! c) = backward_rule (h ! c)"
    using forget_eq_nth(2)[OF f c] by simp
  show ?thesis
  proof (cases "backward_rule (h ! c)")
    case NoOp
    with r show ?thesis by simp
  next
    case (AddBw a b out)
    with ok have "out = c" "a < c" "b < c" by (auto simp: rule_ok_def)
    with c AddBw r g show ?thesis by simp
  next
    case (MulBw a b out)
    with ok have "out = c" "a < c" "b < c" by (auto simp: rule_ok_def)
    with c MulBw r g d[of a] d[of b] show ?thesis by simp
  next
    case (PowBw a n out)
    with ok have "out = c" "a < c" by (auto simp: rule_ok_def)
    with c PowBw r g d[of a] show ?thesis by (simp split: sum.splits)
  next
    case (TanhBw a t out)
    with ok have "out = c" "a < c" by (auto simp: rule_ok_def)
    with c TanhBw r g show ?thesis by (simp split: sum.splits)
  next
    case (ReluBw a out)
    with ok have "out = c" "a < c" by (auto simp: rule_ok_def)
    with c ReluBw r g d[of c] show ?thesis by simp
  next
    case (ExpBw a out)
    with ok have "out = c" "a < c" by (auto simp: rule_ok_def)
    with c ExpBw r g d[of c] show ?thesis by simp
  qed
qed

lemma operands_first_butlast:
  "operands_first h (xs @ [c]) \<Longrightarrow> operands_first h xs \<and> set (operands h c) \<subseteq> set xs"
proof -
  assume o: "operands_first h (xs @ [c])"
  have "operands_first h xs"
    unfolding operands_first_def
  proof (intro allI impI)
    fix i assume i: "i < length xs"
    with o have "set (operands h ((xs @ [c]) ! i)) \<subseteq> set (take i (xs @ [c]))"
      by (simp add: operands_first_def)
    with i show "set (operands h (xs ! i)) \<subseteq> set (take i xs)" by (simp add: nth_append)
  qed
  moreover from o[unfolded operands_first_def, rule_format, of "length xs"]
  have "set (operands h c) \<subseteq> set xs" by simp
  ultimately show ?thesis by simp
qed

lemma received_Nil [simp]: "received fl h [] u = []"
  by (simp add: received_def)

lemma received_Cons:
  "received fl h (c # cs) u =
     (case contributions fl h (backward_rule (h ! c)) of Inl e \<Rightarrow> [] | Inr ws \<Rightarrow> to_node u ws)
     @ received fl h cs u"
  by (simp add: received_def)

lemma received_none:
  assumes wf: "wf_heap h" and L: "set L \<subseteq> {..<length h}"
    and no: "\<forall>c \<in> set L. u \<notin> set (operands h c)"
  shows "received fl h L u = []"
  using L no
proof (induction L)
  case Nil
  show ?case by simp
next
  case (Cons c cs)
  then have c: "c < length h" and u: "u \<notin> set (prev (h ! c))"
    by (auto simp: operands_def)
  from wf c have ok: "rule_ok c (h ! c)" by (simp add: wf_heap_def)
  have "(case contributions fl h (backward_rule (h ! c)) of Inl e \<Rightarrow> [] | Inr ws \<Rightarrow> to_node u ws) = []"
  proof (cases "contributions fl h (backward_rule (h ! c))")
    case (Inl e)
    then show ?thesis by simp
  next
    case (Inr ws)
    from targets_are_operands[OF ok Inr] u have "u \<notin> fst ` set ws" by auto
    with Inr show ?thesis by (simp add: to_node_empty)
  qed
  with Cons show ?case by (simp add: received_Cons)
qed

lemma propagate_forget: "propagate fl L h = (h', e) \<Longrightarrow> map forget_grad h' = map forget_grad h"
  using forget_propagate[of fl L h] by simp

lemma propagate_accumulates:
  assumes "wf_heap h" "distinct L" "operands_first h (rev L)" "set L \<subseteq> {..<length h}"
    "propagate fl L h = (h', None)"
  shows "\<forall>u < length h. grad (h' ! u) = accumulate fl (grad (h ! u)) (received fl h' L u)"
  using assms
proof (induction L arbitrary: h)
  case Nil
  then show ?case by (simp add: accumulate_def)
next
  case (Cons c L)
  from Cons.prems have c: "c < length h" and cL: "c \<notin> set L" and dL: "distinct L" by auto
  from Cons.prems(1) c have ok: "rule_ok c (h ! c)" by (simp add: wf_heap_def)
  from Cons.prems(3) have of: "operands_first h (rev L)" and sub: "set (operands h c) \<subseteq> set L"
    using operands_first_butlast[of h "rev L" c] by auto
  from Cons.prems(5) obtain h1 where run: "run_rule fl (backward_rule (h ! c)) h = Inr h1"
    and rest: "propagate fl L h1 = (h', None)"
    by (auto split: sum.splits)
  from run_rule_accumulates[OF ok c, of fl] run obtain ws where
    ws: "contributions fl h (backward_rule (h ! c)) = Inr ws" and
    step: "\<forall>u < length h. grad (h1 ! u) = accumulate fl (grad (h ! u)) (to_node u ws)"
    by auto
  have f1: "map forget_grad h1 = map forget_grad h" using run by (rule forget_run_rule)
  then have f1': "map forget_grad h = map forget_grad h1" by simp
  have l1: "length h1 = length h" using forget_eq_length[OF f1] .
  have wf1: "wf_heap h1" using forget_eq_wf[OF f1' Cons.prems(1)] .
  have ops1: "operands h1 v = operands h v" for v using forget_eq_operands[OF f1] .
  have of1: "operands_first h1 (rev L)" using of by (simp add: operands_first_def ops1)
  from Cons.IH[OF wf1 dL of1 _ rest] Cons.prems(4) l1
  have IH: "\<forall>u < length h. grad (h' ! u) = accumulate fl (grad (h1 ! u)) (received fl h' L u)"
    by auto
  have f': "map forget_grad h' = map forget_grad h1" using rest by (rule propagate_forget)
  have l': "length h' = length h" using forget_eq_length[OF f'] l1 by simp
  have wf': "wf_heap h'" using forget_eq_wf[OF f'[symmetric] wf1] .
  have ops': "operands h' v = operands h v" for v using forget_eq_operands[OF f'] ops1 by simp
  \<comment> \<open>the gradient of \<open>c\<close> is final when its rule runs\<close>
  have "c \<notin> fst ` set ws"
    using targets_are_operands[OF ok ws] wf_operands_less[OF Cons.prems(1), of _ c] c
    by (auto simp: operands_def)
  with step c have g1: "grad (h1 ! c) = grad (h ! c)"
    by (simp add: to_node_empty accumulate_def)
  have no: "\<forall>c' \<in> set L. c \<notin> set (operands h' c')"
  proof
    fix c' assume c': "c' \<in> set L"
    then have "c' \<in> set (rev L)" by simp
    then have "set (operands h c') \<subseteq> set (rev L)"
      using operands_first_closed[OF of] by auto
    with cL show "c \<notin> set (operands h' c')" by (auto simp: ops')
  qed
  have "received fl h' L c = []"
    using received_none[OF wf' _ no] Cons.prems(4) l' by auto
  with IH c have g': "grad (h' ! c) = grad (h1 ! c)" by (simp add: accumulate_def)
  have "map forget_grad h = map forget_grad h'" using f' f1 by simp
  from contributions_cong[OF this ok c, of fl] g1 g'
  have "contributions fl h' (backward_rule (h' ! c)) = Inr ws" using ws by simp
  then have "received fl h' (c # L) u = to_node u ws @ received fl h' L u" for u
    by (simp add: received_Cons)
  with step IH show ?case by (simp add: accumulate_append)
qed

lemma reachable_le:
  assumes wf: "wf_heap h" and u: "u \<in> reachable h r"
  shows "u \<le> r"
proof -
  from u have "(u, r) \<in> (edges h)\<^sup>*" by (simp add: reachable_def)
  then show ?thesis
  proof (induction rule: converse_rtrancl_induct)
    case base
    show ?case by simp
  next
    case (step y z)
    from step(1) have "y < z" using wf_operands_less[OF wf] by (simp add: edges_def)
    with step(3) show ?case by simp
  qed
qed

lemma seed_forget: "map forget_grad h = map forget_grad (seed h r)"
  by (simp add: forget_seed)

lemma grad_seed:
  "u < length h \<Longrightarrow> grad (seed h r ! u) = (if u = r then 1 else grad (h ! u))"
  by (simp add: seed_def nth_list_update)

lemma accumulate_exact: "accumulate exact g cs = g + sum_list cs"
  by (induction cs arbitrary: g) (simp_all add: accumulate_def exact_def)

lemma backward_accumulates_aux:
  assumes wf: "wf_heap h" and r: "r < length h" and b: "backward fl h r = (h', None)"
  shows "\<forall>u < length h. grad (h' ! u) =
           accumulate fl (if u = r then 1 else grad (h ! u))
             (received fl h' (rev (topo_order h r)) u)"
    and "received fl h' (rev (topo_order h r)) r = []"
    and "map forget_grad h' = map forget_grad h"
proof -
  let ?L = "rev (topo_order h r)"
  note dfs = topo_order_dfs[OF wf_acyclic[OF wf], of r]
  have wfs: "wf_heap (seed h r)" using forget_eq_wf[OF seed_forget wf] .
  have ops: "operands (seed h r) v = operands h v" for v
    using forget_eq_operands[OF seed_forget[of h r], of v] by simp
  have of: "operands_first (seed h r) (rev ?L)"
    using dfs(2) by (simp add: operands_first_def ops)
  have sub: "set ?L \<subseteq> {..<length (seed h r)}"
    using dfs(3) reachable_le[OF wf] r by (fastforce simp: seed_def)
  from b have p: "propagate fl ?L (seed h r) = (h', None)" by (simp add: backward_def)
  from propagate_accumulates[OF wfs _ of sub p] dfs(1)
  have "\<forall>u < length h. grad (h' ! u) =
           accumulate fl (grad (seed h r ! u)) (received fl h' ?L u)"
    by (simp add: seed_def)
  then show "\<forall>u < length h. grad (h' ! u) =
           accumulate fl (if u = r then 1 else grad (h ! u)) (received fl h' ?L u)"
    by (simp add: grad_seed)
  have f: "map forget_grad h' = map forget_grad h"
    using propagate_forget[OF p] seed_forget[of h r] by simp
  then show "map forget_grad h' = map forget_grad h" .
  have wf': "wf_heap h'" using forget_eq_wf[OF f[symmetric] wf] .
  have l: "length h' = length h" using forget_eq_length[OF f] .
  have "\<forall>c \<in> set ?L. r \<notin> set (operands h' c)"
  proof
    fix c assume "c \<in> set ?L"
    with dfs(3) have "c \<le> r" using reachable_le[OF wf] by auto
    then show "r \<notin> set (operands h' c)" using wf_operands_less[OF wf', of r c] by auto
  qed
  from received_none[OF wf' _ this] sub l
  show "received fl h' ?L r = []" by (simp add: seed_def)
qed

text \<open>
  Claim C4. In one \<open>backward()\<close> call that returns, the gradient of the root is assigned
  1.0 whatever it held, and the gradient of every other object is what it held at entry
  with the amounts added to it one after the other that the closures of its consumers
  contribute, in the order \<open>backward()\<close> calls them; each amount is the one the closure
  computes from its object's final gradient. With all gradients zero at entry the gradient
  of an object other than the root is the sum of these contributions.
\<close>

theorem backward_accumulates:
  assumes "wf_heap h" and "self < length h" and "backward fl h self = (h', None)"
    and "u < length h"
  shows "grad (h' ! u) =
           accumulate fl (if u = self then 1 else grad (h ! u))
             (received fl h' (rev (topo_order h self)) u)
         \<and> grad (h' ! self) = 1
         \<and> (fl = exact \<longrightarrow> u \<noteq> self \<longrightarrow> grad (h ! u) = 0 \<longrightarrow>
              grad (h' ! u) = sum_list (received fl h' (rev (topo_order h self)) u))"
proof -
  note a = backward_accumulates_aux[OF assms(1-3)]
  from a(1) assms(4) have 1: "grad (h' ! u) =
           accumulate fl (if u = self then 1 else grad (h ! u))
             (received fl h' (rev (topo_order h self)) u)" by simp
  from a(1,2) assms(2) have 2: "grad (h' ! self) = 1" by (simp add: accumulate_def)
  from 1 have 3: "fl = exact \<longrightarrow> u \<noteq> self \<longrightarrow> grad (h ! u) = 0 \<longrightarrow>
              grad (h' ! u) = sum_list (received fl h' (rev (topo_order h self)) u)"
    by (simp add: accumulate_exact)
  from 1 2 3 show ?thesis by simp
qed

lemma backward_diamond:
  "backward exact diamond 2 =
    ([\<lparr>data = 3, grad = 7, backward_rule = NoOp, prev = [], op = OpNone, label = []\<rparr>,
      \<lparr>data = 9, grad = 1, backward_rule = MulBw 0 0 1, prev = [0], op = OpMul, label = []\<rparr>,
      \<lparr>data = 12, grad = 1, backward_rule = AddBw 1 0 2, prev = [1, 0], op = OpAdd,
         label = []\<rparr>], None)"
  by (simp add: backward_def topo_diamond)
     (simp add: diamond_eq seed_def add_grad_def exact_def)

theorem backward_accumulates_witness:
  "wf_heap diamond \<and> 2 < length diamond \<and> snd (backward exact diamond 2) = None \<and>
   0 < length diamond \<and>
   received exact (fst (backward exact diamond 2)) (rev (topo_order diamond 2)) 0 = [1, 3, 3] \<and>
   grad (fst (backward exact diamond 2) ! 0) = 7 \<and>
   grad (fst (backward exact diamond 2) ! 2) = 1"
  using backward_accumulates [of diamond 2 exact "fst (backward exact diamond 2)" 0]
    wf_diamond
  by (simp add: backward_diamond topo_diamond received_def to_node_def exact_def)
     (simp add: diamond_eq)

section \<open>Fan-out, operator symmetry and the boundary of relu\<close>

lemma leaf_eq:
  "leaf x = [\<lparr>data = x, grad = 0, backward_rule = NoOp, prev = [], op = OpNone, label = []\<rparr>]"
  by (simp add: leaf_def Value_init_def)

lemma wf_leaf: "wf_heap (leaf x)"
  by (simp add: leaf_eq wf_heap_def rule_ok_def)

lemma operands_leaf: "operands (leaf x) 0 = []"
  by (simp add: leaf_eq operands_def)

lemma leaf_rule:
  assumes "wf_heap h" "x < length h" "operands h x = []"
  shows "backward_rule (h ! x) = NoOp"
proof -
  from assms have "rule_ok x (h ! x)" "prev (h ! x) = []"
    by (auto simp: wf_heap_def operands_def)
  then show ?thesis by (cases "backward_rule (h ! x)") (auto simp: rule_ok_def)
qed

lemma add_self_heap:
  "add fl h x (Ref x) =
     (h @ [\<lparr>data = fl (data (h ! x) + data (h ! x)), grad = 0,
            backward_rule = AddBw x x (length h), prev = [x], op = OpAdd, label = []\<rparr>],
      length h)"
  by (simp add: add_def Value_init_def set_backward_def)

text \<open>
  Claim C2. For a leaf \<open>x\<close> with gradient zero, \<open>y = x + x\<close> followed by
  \<open>y.backward()\<close> leaves the gradient of \<open>x\<close> at 2.0, in exact arithmetic and in
  binary64, although \<open>x\<close> is a single element of the operand collection of \<open>y\<close>.
\<close>

theorem fan_out:
  assumes wf: "wf_heap h" and x: "x < length h" and leaf: "operands h x = []"
    and g: "grad (h ! x) = 0" and fl: "fl = exact \<or> fl = binary64"
    and a: "add fl h x (Ref x) = (h1, y)" and b: "backward fl h1 y = (h', e)"
  shows "prev (h1 ! y) = [x] \<and> e = None \<and> grad (h' ! x) = 2"
proof -
  from a have h1: "h1 = h @ [\<lparr>data = fl (data (h ! x) + data (h ! x)), grad = 0,
            backward_rule = AddBw x x (length h), prev = [x], op = OpAdd, label = []\<rparr>]"
    and y: "y = length h"
    by (auto simp: add_self_heap)
  have ox: "operands h1 x = []" using leaf x by (simp add: h1 operands_def nth_append)
  have oy: "operands h1 (length h) = [x]" by (simp add: h1 operands_def)
  have topo: "topo_order h1 (length h) = [x, length h]"
    using x by (simp add: topo_order_def build_topo.simps ox oy)
  have rx: "backward_rule (h ! x) = NoOp" using leaf_rule[OF wf x leaf] .
  have fl1: "fl (fl 1 + 1) = 2"
    using fl by (auto simp: exact_def binary64_numeral)
  let ?n = "\<lparr>data = fl (data (h ! x) + data (h ! x)), grad = 1,
            backward_rule = AddBw x x (length h), prev = [x], op = OpAdd, label = []\<rparr>"
  have "backward fl h1 y = propagate fl [length h, x] (seed h1 (length h))"
    unfolding backward_def y topo by simp
  also have "seed h1 (length h) = h @ [?n]" by (simp add: seed_def h1)
  also have "propagate fl [length h, x] (h @ [?n]) =
      ((h @ [?n])[x := (h ! x)\<lparr>grad := 2\<rparr>], None)"
    using x g rx by (simp add: nth_append add_grad_def Let_def fl1)
  finally have "backward fl h1 y = ((h @ [?n])[x := (h ! x)\<lparr>grad := 2\<rparr>], None)" .
  with b x show ?thesis by (auto simp: h1 y nth_append)
qed

theorem fan_out_witness:
  "wf_heap (leaf 3) \<and> 0 < length (leaf 3) \<and> operands (leaf 3) 0 = [] \<and>
   grad (leaf 3 ! 0) = 0 \<and>
   prev (fst (add binary64 (leaf 3) 0 (Ref 0)) ! snd (add binary64 (leaf 3) 0 (Ref 0))) = [0] \<and>
   snd (backward binary64 (fst (add binary64 (leaf 3) 0 (Ref 0)))
         (snd (add binary64 (leaf 3) 0 (Ref 0)))) = None \<and>
   grad (fst (backward binary64 (fst (add binary64 (leaf 3) 0 (Ref 0)))
               (snd (add binary64 (leaf 3) 0 (Ref 0)))) ! 0) = 2"
  using fan_out [of "leaf 3" 0 binary64 "fst (add binary64 (leaf 3) 0 (Ref 0))"
      "snd (add binary64 (leaf 3) 0 (Ref 0))"
      "fst (backward binary64 (fst (add binary64 (leaf 3) 0 (Ref 0)))
               (snd (add binary64 (leaf 3) 0 (Ref 0))))"
      "snd (backward binary64 (fst (add binary64 (leaf 3) 0 (Ref 0)))
               (snd (add binary64 (leaf 3) 0 (Ref 0))))"]
    wf_leaf [of 3] operands_leaf [of 3]
  by (simp add: leaf_eq)

lemma add_num_heap:
  "a < length h \<Longrightarrow> add fl h a (Num c) =
     (h @ [\<lparr>data = c, grad = 0, backward_rule = NoOp, prev = [], op = OpNone, label = []\<rparr>,
           \<lparr>data = fl (data (h ! a) + c), grad = 0,
            backward_rule = AddBw a (length h) (Suc (length h)), prev = [a, length h],
            op = OpAdd, label = []\<rparr>],
      Suc (length h))"
  by (simp add: add_def Value_init_def set_backward_def nth_append)

text \<open>
  Claim C6. For a leaf \<open>a\<close> with value 3.0 and gradient zero, \<open>a + 2\<close> and \<open>2 + a\<close>
  (which Python dispatches to \<open>a.__radd__(2)\<close>) both make an object with value 5.0, and
  \<open>backward()\<close> on either leaves the gradient of \<open>a\<close> at 1.0.
\<close>

theorem operator_symmetry:
  assumes wf: "wf_heap h" and a: "a < length h" and leaf: "operands h a = []"
    and d: "data (h ! a) = 3" and g: "grad (h ! a) = 0" and fl: "fl = exact \<or> fl = binary64"
    and l: "add fl h a (Num 2) = (h1, y)" and r: "radd fl h a (Num 2) = (h2, z)"
    and bl: "backward fl h1 y = (h1', e1)" and br: "backward fl h2 z = (h2', e2)"
  shows "data (h1 ! y) = 5 \<and> data (h2 ! z) = 5 \<and> e1 = None \<and> e2 = None \<and>
         grad (h1' ! a) = 1 \<and> grad (h2' ! a) = 1"
proof -
  let ?c = "\<lparr>data = 2, grad = 0, backward_rule = NoOp, prev = [], op = OpNone, label = []\<rparr>"
  let ?n = "\<lambda>g. \<lparr>data = fl (data (h ! a) + 2), grad = g,
            backward_rule = AddBw a (length h) (Suc (length h)), prev = [a, length h],
            op = OpAdd, label = []\<rparr>"
  from l a have h1: "h1 = h @ [?c, ?n 0]" and y: "y = Suc (length h)"
    by (auto simp: add_num_heap)
  from r l have same: "h2 = h1" "z = y" by (simp_all add: radd_def)
  with bl br have same': "h2' = h1'" "e2 = e1" by simp_all
  have fl5: "fl 5 = 5" and fl1: "fl 1 = 1"
    using fl by (auto simp: exact_def binary64_numeral)
  have oa: "operands h1 a = []" using leaf a by (simp add: h1 operands_def nth_append)
  have oc: "operands h1 (length h) = []" by (simp add: h1 operands_def nth_append)
  have oy: "operands h1 (Suc (length h)) = [a, length h]"
    by (simp add: h1 operands_def nth_append)
  have topo: "topo_order h1 (Suc (length h)) = [a, length h, Suc (length h)]"
    using a by (simp add: topo_order_def build_topo.simps oa oc oy)
  have ra: "backward_rule (h ! a) = NoOp" using leaf_rule[OF wf a leaf] .
  have "backward fl h1 y = propagate fl [Suc (length h), length h, a] (seed h1 (Suc (length h)))"
    unfolding backward_def y topo by simp
  also have "seed h1 (Suc (length h)) = h @ [?c, ?n 1]" by (simp add: seed_def h1 nth_append list_update_append)
  also have "propagate fl [Suc (length h), length h, a] (h @ [?c, ?n 1]) =
      (h[a := (h ! a)\<lparr>grad := 1\<rparr>] @ [?c\<lparr>grad := 1\<rparr>, ?n 1], None)"
    using a g ra by (simp add: nth_append add_grad_def Let_def fl1 list_update_append)
  finally have "backward fl h1 y = (h[a := (h ! a)\<lparr>grad := 1\<rparr>] @ [?c\<lparr>grad := 1\<rparr>, ?n 1], None)" .
  with bl a have "e1 = None" "grad (h1' ! a) = 1" by (auto simp: nth_append)
  moreover have "data (h1 ! y) = 5" using d by (simp add: h1 y nth_append fl5)
  ultimately show ?thesis using same same' by simp
qed

theorem operator_symmetry_witness:
  "wf_heap (leaf 3) \<and> 0 < length (leaf 3) \<and> operands (leaf 3) 0 = [] \<and>
   data (leaf 3 ! 0) = 3 \<and> grad (leaf 3 ! 0) = 0 \<and>
   data (fst (add binary64 (leaf 3) 0 (Num 2)) ! snd (add binary64 (leaf 3) 0 (Num 2))) = 5 \<and>
   data (fst (radd binary64 (leaf 3) 0 (Num 2)) ! snd (radd binary64 (leaf 3) 0 (Num 2))) = 5 \<and>
   backward binary64 (fst (add binary64 (leaf 3) 0 (Num 2)))
         (snd (add binary64 (leaf 3) 0 (Num 2)))
     = backward binary64 (fst (radd binary64 (leaf 3) 0 (Num 2)))
         (snd (radd binary64 (leaf 3) 0 (Num 2))) \<and>
   snd (backward binary64 (fst (add binary64 (leaf 3) 0 (Num 2)))
         (snd (add binary64 (leaf 3) 0 (Num 2)))) = None \<and>
   grad (fst (backward binary64 (fst (add binary64 (leaf 3) 0 (Num 2)))
               (snd (add binary64 (leaf 3) 0 (Num 2)))) ! 0) = 1"
  using operator_symmetry [of "leaf 3" 0 binary64
      "fst (add binary64 (leaf 3) 0 (Num 2))" "snd (add binary64 (leaf 3) 0 (Num 2))"
      "fst (radd binary64 (leaf 3) 0 (Num 2))" "snd (radd binary64 (leaf 3) 0 (Num 2))"
      "fst (backward binary64 (fst (add binary64 (leaf 3) 0 (Num 2)))
               (snd (add binary64 (leaf 3) 0 (Num 2))))"
      "snd (backward binary64 (fst (add binary64 (leaf 3) 0 (Num 2)))
               (snd (add binary64 (leaf 3) 0 (Num 2))))"
      "fst (backward binary64 (fst (radd binary64 (leaf 3) 0 (Num 2)))
               (snd (radd binary64 (leaf 3) 0 (Num 2))))"
      "snd (backward binary64 (fst (radd binary64 (leaf 3) 0 (Num 2)))
               (snd (radd binary64 (leaf 3) 0 (Num 2))))"]
    wf_leaf [of 3] operands_leaf [of 3]
  by (simp add: leaf_eq radd_def)

lemma relu_heap:
  "relu h x =
     (h @ [\<lparr>data = (if data (h ! x) < 0 then 0 else data (h ! x)), grad = 0,
            backward_rule = ReluBw x (length h), prev = [x], op = OpReLU, label = []\<rparr>],
      length h)"
  by (simp add: relu_def Value_init_def set_backward_def)

lemma topo_order_root_last:
  "topo_order h r = snd (build_topo_children h (operands h r) ({r}, [])) @ [r]"
  by (simp add: topo_order_def build_topo.simps split: prod.splits)

lemma below_sole_operand:
  assumes wf: "wf_heap h" and o: "operands h y = [x]" and c: "c \<in> reachable h y" and ne: "c \<noteq> y"
  shows "c \<le> x"
proof -
  from c have "(c, y) \<in> (edges h)\<^sup>*" by (simp add: reachable_def)
  with ne obtain z where "(c, z) \<in> (edges h)\<^sup>*" "(z, y) \<in> edges h"
    by (auto elim: rtranclE)
  with o have "c \<in> reachable h x" by (simp add: edges_def reachable_def)
  with wf show ?thesis by (rule reachable_le)
qed

text \<open>
  Claim C5. \<open>relu\<close> of an object whose value is exactly 0.0 makes an object with value
  0.0; \<open>backward()\<close> on it adds one contribution to the gradient of the input, and that
  contribution is zero. The closure adds zero whenever the output value is not above zero
  and the output's gradient when it is.
\<close>

theorem relu_boundary:
  assumes wf: "wf_heap h" and x: "x < length h" and d: "data (h ! x) = 0"
    and fl0: "fl 0 = 0"
    and r: "relu h x = (h1, y)" and b: "backward fl h1 y = (h', None)"
  shows "data (h1 ! y) = 0 \<and>
         received fl h' (rev (topo_order h1 y)) x = [0] \<and>
         grad (h' ! x) = fl (grad (h ! x) + 0) \<and>
         (\<forall>s. data (s ! y) \<le> 0 \<longrightarrow>
              run_rule fl (backward_rule (h1 ! y)) s = Inr (add_grad fl s x 0)) \<and>
         (\<forall>s. 0 < data (s ! y) \<longrightarrow>
              run_rule fl (backward_rule (h1 ! y)) s = Inr (add_grad fl s x (fl (grad (s ! y)))))"
proof -
  let ?n = "\<lparr>data = 0, grad = 0, backward_rule = ReluBw x (length h), prev = [x],
             op = OpReLU, label = []\<rparr>"
  from r d have h1: "h1 = h @ [?n]" and y: "y = length h"
    by (auto simp: relu_heap)
  have wf1: "wf_heap h1" and y1: "y < length h1"
    using wf_relu[OF wf x r] by auto
  have x1: "x < length h1" using x by (simp add: h1)
  have oy: "operands h1 y = [x]" by (simp add: h1 y operands_def)
  have ry: "backward_rule (h1 ! y) = ReluBw x y" by (simp add: h1 y)
  have dy: "data (h1 ! y) = 0" by (simp add: h1 y)
  note acc = backward_accumulates_aux[OF wf1 y1 b]
  have ry': "backward_rule (h' ! y) = ReluBw x y" and dy': "data (h' ! y) = 0"
    using forget_eq_nth(1,2)[OF acc(3), of y] y1 ry dy forget_eq_length[OF acc(3)] by auto
  have wf': "wf_heap h'" using forget_eq_wf[OF acc(3)[symmetric] wf1] .
  have l': "length h' = length h1" using forget_eq_length[OF acc(3)] .
  let ?T = "snd (build_topo_children h1 [x] ({y}, []))"
  have T: "topo_order h1 y = ?T @ [y]" using topo_order_root_last[of h1 y] by (simp add: oy)
  note dfs = topo_order_dfs[OF wf_acyclic[OF wf1], of y]
  have no: "\<forall>c \<in> set (rev ?T). x \<notin> set (operands h' c)"
  proof
    fix c assume "c \<in> set (rev ?T)"
    with dfs(1,3) T have "c \<in> reachable h1 y" "c \<noteq> y" by auto
    then have "c \<le> x" by (rule below_sole_operand[OF wf1 oy])
    then show "x \<notin> set (operands h' c)" using wf_operands_less[OF wf', of x c] by auto
  qed
  have sub: "set (rev ?T) \<subseteq> {..<length h'}"
    using dfs(3) T reachable_le[OF wf1] y1 l' by fastforce
  have "received fl h' (rev ?T) x = []" using received_none[OF wf' sub no] .
  then have rec: "received fl h' (rev (topo_order h1 y)) x = [0]"
    by (simp add: T received_Cons ry' dy' to_node_def fl0)
  from acc(1) x1 have "grad (h' ! x) = accumulate fl (if x = y then 1 else grad (h1 ! x))
      (received fl h' (rev (topo_order h1 y)) x)" by simp
  then have "grad (h' ! x) = accumulate fl (if x = y then 1 else grad (h1 ! x)) [0]"
    unfolding rec .
  with x have gx: "grad (h' ! x) = fl (grad (h ! x) + 0)"
    by (simp add: accumulate_def y h1 nth_append)
  have "run_rule fl (backward_rule (h1 ! y)) s = Inr (add_grad fl s x 0)"
    if "data (s ! y) \<le> 0" for s using that by (simp add: ry fl0)
  moreover have "run_rule fl (backward_rule (h1 ! y)) s = Inr (add_grad fl s x (fl (grad (s ! y))))"
    if "0 < data (s ! y)" for s using that by (simp add: ry)
  ultimately show ?thesis using dy rec gx by simp
qed

lemma backward_relu_leaf0:
  "backward binary64 (fst (relu (leaf 0) 0)) (snd (relu (leaf 0) 0)) =
    ([\<lparr>data = 0, grad = 0, backward_rule = NoOp, prev = [], op = OpNone, label = []\<rparr>,
      \<lparr>data = 0, grad = 1, backward_rule = ReluBw 0 1, prev = [0], op = OpReLU, label = []\<rparr>],
     None)"
  by (simp add: relu_heap leaf_eq backward_def topo_order_def build_topo.simps operands_def
        seed_def add_grad_def)

theorem relu_boundary_witness:
  "wf_heap (leaf 0) \<and> 0 < length (leaf 0) \<and> data (leaf 0 ! 0) = 0 \<and> binary64 0 = 0 \<and>
   snd (backward binary64 (fst (relu (leaf 0) 0)) (snd (relu (leaf 0) 0))) = None \<and>
   data (fst (relu (leaf 0) 0) ! snd (relu (leaf 0) 0)) = 0 \<and>
   grad (fst (backward binary64 (fst (relu (leaf 0) 0)) (snd (relu (leaf 0) 0))) ! 0) = 0"
  using relu_boundary [of "leaf 0" 0 binary64 "fst (relu (leaf 0) 0)" "snd (relu (leaf 0) 0)"
      "fst (backward binary64 (fst (relu (leaf 0) 0)) (snd (relu (leaf 0) 0)))"]
    wf_leaf [of 0]
  by (simp add: backward_relu_leaf0) (simp add: leaf_eq)

section \<open>Powers\<close>

lemma sole_consumer:
  assumes wf1: "wf_heap h1" and y1: "y < length h1" and oy: "operands h1 y = [x]"
    and b: "backward fl h1 y = (h', None)"
  shows "received fl h' (rev (topo_order h1 y)) x = amounts fl h' y x"
    and "grad (h' ! x) = accumulate fl (grad (h1 ! x)) (amounts fl h' y x)"
    and "grad (h' ! y) = 1"
    and "map forget_grad h' = map forget_grad h1"
proof -
  note acc = backward_accumulates_aux[OF wf1 y1 b]
  show f: "map forget_grad h' = map forget_grad h1" using acc(3) .
  have wf': "wf_heap h'" using forget_eq_wf[OF acc(3)[symmetric] wf1] .
  have l': "length h' = length h1" using forget_eq_length[OF acc(3)] .
  have xy: "x < y" using wf_operands_less[OF wf1, of x y] oy by simp
  let ?T = "snd (build_topo_children h1 [x] ({y}, []))"
  have T: "topo_order h1 y = ?T @ [y]" using topo_order_root_last[of h1 y] by (simp add: oy)
  note dfs = topo_order_dfs[OF wf_acyclic[OF wf1], of y]
  have no: "\<forall>c \<in> set (rev ?T). x \<notin> set (operands h' c)"
  proof
    fix c assume "c \<in> set (rev ?T)"
    with dfs(1,3) T have "c \<in> reachable h1 y" "c \<noteq> y" by auto
    then have "c \<le> x" by (rule below_sole_operand[OF wf1 oy])
    then show "x \<notin> set (operands h' c)" using wf_operands_less[OF wf', of x c] by auto
  qed
  have sub: "set (rev ?T) \<subseteq> {..<length h'}"
    using dfs(3) T reachable_le[OF wf1] y1 l' by fastforce
  have "received fl h' (rev ?T) x = []" using received_none[OF wf' sub no] .
  then show rec: "received fl h' (rev (topo_order h1 y)) x = amounts fl h' y x"
    by (simp add: T received_Cons amounts_def)
  from acc(1) xy y1 have "grad (h' ! x) = accumulate fl (if x = y then 1 else grad (h1 ! x))
      (received fl h' (rev (topo_order h1 y)) x)" by simp
  with xy show "grad (h' ! x) = accumulate fl (grad (h1 ! x)) (amounts fl h' y x)"
    unfolding rec by simp
  from acc(1,2) y1 show "grad (h' ! y) = 1" by (simp add: accumulate_def)
qed

lemma backward_root_raises:
  assumes "run_rule fl (backward_rule (seed h y ! y)) (seed h y) = Inl e"
  shows "backward fl h y = (seed h y, Some e)"
  using assms by (simp add: backward_def topo_order_root_last)

lemma float_pow_cases:
  "x = 0 \<and> n < 0 \<Longrightarrow> float_pow fl x n = Inl ZeroDivisionError"
  "x < 0 \<and> n \<notin> \<int> \<Longrightarrow> float_pow fl x n = Inl ComplexResult"
  "pow_defined x n \<Longrightarrow> overflows fl (pow_value x n) \<Longrightarrow> float_pow fl x n = Inl OverflowError"
  "pow_defined x n \<Longrightarrow> \<not> overflows fl (pow_value x n) \<Longrightarrow>
     float_pow fl x n = Inr (fl (pow_value x n))"
  by (auto simp: float_pow_def pow_defined_def)

lemma pow_heap:
  "float_pow fl (data (h ! a)) n = Inr p \<Longrightarrow>
   pow fl h a (Num n) =
     Inr (h @ [\<lparr>data = p, grad = 0, backward_rule = PowBw a n (length h), prev = [a],
                op = OpPow n, label = []\<rparr>], length h)"
  by (simp add: Value_init_def set_backward_def)

lemma pow_node:
  assumes a: "a < length h" and p: "pow fl h a (Num n) = Inr (h1, out)"
  shows "out = length h" "out < length h1" "a < length h1"
    "backward_rule (h1 ! out) = PowBw a n out" "operands h1 out = [a]"
    "data (h1 ! a) = data (h ! a)" "grad (h1 ! a) = grad (h ! a)"
proof -
  from p obtain q where q: "float_pow fl (data (h ! a)) n = Inr q"
    by (auto split: sum.splits)
  from pow_heap[OF q] p have h1: "h1 = h @ [\<lparr>data = q, grad = 0,
      backward_rule = PowBw a n (length h), prev = [a], op = OpPow n, label = []\<rparr>]"
    and out: "out = length h" by auto
  show "out = length h" by fact
  show "out < length h1" "a < length h1" using a by (simp_all add: h1 out)
  show "backward_rule (h1 ! out) = PowBw a n out" by (simp add: h1 out)
  show "operands h1 out = [a]" by (simp add: h1 out operands_def)
  show "data (h1 ! a) = data (h ! a)" "grad (h1 ! a) = grad (h ! a)"
    using a by (simp_all add: h1 nth_append)
qed

lemma seed_other:
  "v \<noteq> y \<Longrightarrow> seed h y ! v = h ! v"
  by (simp add: seed_def)

lemma seed_rule: "backward_rule (seed h y ! y) = backward_rule (h ! y)"
  by (cases "y < length h") (simp_all add: seed_def list_update_beyond)

text \<open>
  Claim C7, as the code has it. \<open>a ** b\<close> with an object \<open>b\<close> as exponent fails the
  assertion before anything is constructed. With a number \<open>n\<close>, and \<open>x\<close> the value of
  \<open>a\<close>: \<open>x ** n\<close> raises \<open>ZeroDivisionError\<close> when \<open>x\<close> is zero and \<open>n\<close> negative, and
  \<open>OverflowError\<close> when the power lies beyond the largest float, and then nothing is
  constructed; for a negative \<open>x\<close> and a non-integral \<open>n\<close> the power is a complex number;
  in every other case the operation makes an object with the value \<open>x ** n\<close>. The closure
  of that object evaluates \<open>x ** (n - 1)\<close>. In any heap it adds
  \<open>n * x ** (n - 1) * out.grad\<close> to the gradient of \<open>a\<close> when that power is a float.
  \<open>backward()\<close> on the new object raises \<open>ZeroDivisionError\<close> when \<open>x\<close> is zero and
  \<open>n - 1\<close> negative and \<open>OverflowError\<close> when \<open>x ** (n - 1)\<close> lies beyond the largest
  float, with nothing written but the seed; and when the power is a float and the call
  returns, the gradient of \<open>a\<close> has received exactly one contribution,
  \<open>n * x ** (n - 1) * 1\<close>.
\<close>

theorem pow_contract:
  assumes wf: "wf_heap h" and a: "a < length h"
  shows
   "pow fl h a (Ref b) = Inl AssertionError
    \<and> (data (h ! a) = 0 \<and> n < 0 \<longrightarrow> pow fl h a (Num n) = Inl ZeroDivisionError)
    \<and> (data (h ! a) < 0 \<and> n \<notin> \<int> \<longrightarrow> pow fl h a (Num n) = Inl ComplexResult)
    \<and> (pow_defined (data (h ! a)) n \<and> overflows fl (pow_value (data (h ! a)) n) \<longrightarrow>
          pow fl h a (Num n) = Inl OverflowError)
    \<and> (pow_defined (data (h ! a)) n \<and> \<not> overflows fl (pow_value (data (h ! a)) n) \<longrightarrow>
          pow fl h a (Num n) =
            Inr (h @ [\<lparr>data = fl (pow_value (data (h ! a)) n), grad = 0,
                       backward_rule = PowBw a n (length h), prev = [a], op = OpPow n,
                       label = []\<rparr>], length h))
    \<and> (pow_defined (data (s ! a)) (fl (n - 1)) \<and>
        \<not> overflows fl (pow_value (data (s ! a)) (fl (n - 1))) \<longrightarrow>
          run_rule fl (PowBw a n out) s =
            Inr (add_grad fl s a
                   (fl (fl (n * fl (pow_value (data (s ! a)) (fl (n - 1)))) * grad (s ! out)))))
    \<and> (pow fl h a (Num n) = Inr (h1, out) \<longrightarrow>
          (data (h ! a) = 0 \<and> fl (n - 1) < 0 \<longrightarrow>
             backward fl h1 out = (seed h1 out, Some ZeroDivisionError))
        \<and> (pow_defined (data (h ! a)) (fl (n - 1)) \<and>
           overflows fl (pow_value (data (h ! a)) (fl (n - 1))) \<longrightarrow>
             backward fl h1 out = (seed h1 out, Some OverflowError))
        \<and> (pow_defined (data (h ! a)) (fl (n - 1)) \<and>
           \<not> overflows fl (pow_value (data (h ! a)) (fl (n - 1))) \<and>
           backward fl h1 out = (h', None) \<longrightarrow>
             received fl h' (rev (topo_order h1 out)) a =
               [fl (fl (n * fl (pow_value (data (h ! a)) (fl (n - 1)))) * 1)] \<and>
             grad (h' ! a) =
               fl (grad (h ! a) + fl (fl (n * fl (pow_value (data (h ! a)) (fl (n - 1)))) * 1))))"
proof -
  have 1: "pow fl h a (Ref b) = Inl AssertionError" by simp
  have 2: "pow fl h a (Num n) = Inl ZeroDivisionError" if "data (h ! a) = 0 \<and> n < 0"
    using float_pow_cases(1)[OF that, of fl] by simp
  have 3: "pow fl h a (Num n) = Inl ComplexResult" if "data (h ! a) < 0 \<and> n \<notin> \<int>"
    using float_pow_cases(2)[OF that, of fl] by simp
  have 4: "pow fl h a (Num n) = Inl OverflowError"
    if "pow_defined (data (h ! a)) n \<and> overflows fl (pow_value (data (h ! a)) n)"
    using float_pow_cases(3)[of "data (h ! a)" n fl] that by simp
  have 5: "pow fl h a (Num n) =
      Inr (h @ [\<lparr>data = fl (pow_value (data (h ! a)) n), grad = 0,
                 backward_rule = PowBw a n (length h), prev = [a], op = OpPow n,
                 label = []\<rparr>], length h)"
    if "pow_defined (data (h ! a)) n \<and> \<not> overflows fl (pow_value (data (h ! a)) n)"
    using float_pow_cases(4)[of "data (h ! a)" n fl] that by (intro pow_heap) simp
  have 6: "run_rule fl (PowBw a n out) s =
      Inr (add_grad fl s a
             (fl (fl (n * fl (pow_value (data (s ! a)) (fl (n - 1)))) * grad (s ! out))))"
    if "pow_defined (data (s ! a)) (fl (n - 1)) \<and>
        \<not> overflows fl (pow_value (data (s ! a)) (fl (n - 1)))"
    using float_pow_cases(4)[of "data (s ! a)" "fl (n - 1)" fl] that by simp
  have 7: "(data (h ! a) = 0 \<and> fl (n - 1) < 0 \<longrightarrow>
             backward fl h1 out = (seed h1 out, Some ZeroDivisionError))
        \<and> (pow_defined (data (h ! a)) (fl (n - 1)) \<and>
           overflows fl (pow_value (data (h ! a)) (fl (n - 1))) \<longrightarrow>
             backward fl h1 out = (seed h1 out, Some OverflowError))
        \<and> (pow_defined (data (h ! a)) (fl (n - 1)) \<and>
           \<not> overflows fl (pow_value (data (h ! a)) (fl (n - 1))) \<and>
           backward fl h1 out = (h', None) \<longrightarrow>
             received fl h' (rev (topo_order h1 out)) a =
               [fl (fl (n * fl (pow_value (data (h ! a)) (fl (n - 1)))) * 1)] \<and>
             grad (h' ! a) =
               fl (grad (h ! a) + fl (fl (n * fl (pow_value (data (h ! a)) (fl (n - 1)))) * 1)))"
    if p: "pow fl h a (Num n) = Inr (h1, out)"
  proof -
    note nd = pow_node[OF a p]
    have ao: "a \<noteq> out" using a nd(1) by simp
    have wf1: "wf_heap h1" using wf_pow[OF wf a p] by simp
    have rs: "backward_rule (seed h1 out ! out) = PowBw a n out"
      using seed_rule[of h1 out] nd(4) by simp
    have ds: "data (seed h1 out ! a) = data (h ! a)"
      using seed_other[OF ao, of h1] nd(6) by simp
    have z: "backward fl h1 out = (seed h1 out, Some ZeroDivisionError)"
      if "data (h ! a) = 0 \<and> fl (n - 1) < 0"
      using float_pow_cases(1)[OF that, of fl]
      by (intro backward_root_raises) (simp add: rs ds)
    have o: "backward fl h1 out = (seed h1 out, Some OverflowError)"
      if "pow_defined (data (h ! a)) (fl (n - 1)) \<and>
          overflows fl (pow_value (data (h ! a)) (fl (n - 1)))"
      using float_pow_cases(3)[of "data (h ! a)" "fl (n - 1)" fl] that
      by (intro backward_root_raises) (simp add: rs ds)
    have r: "received fl h' (rev (topo_order h1 out)) a =
               [fl (fl (n * fl (pow_value (data (h ! a)) (fl (n - 1)))) * 1)] \<and>
             grad (h' ! a) =
               fl (grad (h ! a) + fl (fl (n * fl (pow_value (data (h ! a)) (fl (n - 1)))) * 1))"
      if d: "pow_defined (data (h ! a)) (fl (n - 1)) \<and>
          \<not> overflows fl (pow_value (data (h ! a)) (fl (n - 1))) \<and>
          backward fl h1 out = (h', None)"
    proof -
      from d have b: "backward fl h1 out = (h', None)" by simp
      note sc = sole_consumer[OF wf1 nd(2) nd(5) b]
      have r': "backward_rule (h' ! out) = PowBw a n out"
        using forget_eq_nth(2)[OF sc(4), of out] nd(2,4) forget_eq_length[OF sc(4)] by simp
      have d': "data (h' ! a) = data (h ! a)"
        using forget_eq_nth(1)[OF sc(4), of a] nd(3,6) forget_eq_length[OF sc(4)] by simp
      have "amounts fl h' out a =
          [fl (fl (n * fl (pow_value (data (h ! a)) (fl (n - 1)))) * 1)]"
        using float_pow_cases(4)[of "data (h ! a)" "fl (n - 1)" fl] d
        by (simp add: amounts_def r' d' sc(3) to_node_def)
      with sc(1,2) nd(7) show ?thesis by (simp add: accumulate_def)
    qed
    from z o r show ?thesis by blast
  qed
  from 1 2 3 4 5 6 7 show ?thesis by blast
qed

lemma squared_eq: "squared =
  [\<lparr>data = 3, grad = 0, backward_rule = NoOp, prev = [], op = OpNone, label = []\<rparr>,
   \<lparr>data = 9, grad = 0, backward_rule = PowBw 0 2 1, prev = [0], op = OpPow 2, label = []\<rparr>]"
  by (simp add: squared_def leaf_eq float_pow_def pow_value_def exact_def overflows_small
        Value_init_def set_backward_def)

lemma backward_squared:
  "backward exact squared 1 =
    ([\<lparr>data = 3, grad = 6, backward_rule = NoOp, prev = [], op = OpNone, label = []\<rparr>,
      \<lparr>data = 9, grad = 1, backward_rule = PowBw 0 2 1, prev = [0], op = OpPow 2,
         label = []\<rparr>], None)"
  by (simp add: squared_eq backward_def topo_order_def build_topo.simps operands_def seed_def
        float_pow_def pow_value_def exact_def overflows_small add_grad_def)

lemma pow_squared: "pow exact (leaf 3) 0 (Num 2) = Inr (squared, 1)"
  by (simp add: squared_eq leaf_eq float_pow_def pow_value_def exact_def overflows_small
        Value_init_def set_backward_def)

theorem pow_contract_witness:
  "wf_heap (leaf 3) \<and> 0 < length (leaf 3) \<and>
   pow exact (leaf 3) 0 (Ref 0) = Inl AssertionError \<and>
   pow_defined (data (leaf 3 ! 0)) 2 \<and> \<not> overflows exact (pow_value (data (leaf 3 ! 0)) 2) \<and>
   pow exact (leaf 3) 0 (Num 2) = Inr (squared, 1) \<and>
   pow_defined (data (leaf 3 ! 0)) (exact (2 - 1)) \<and>
   \<not> overflows exact (pow_value (data (leaf 3 ! 0)) (exact (2 - 1))) \<and>
   backward exact squared 1 = (fst (backward exact squared 1), None) \<and>
   received exact (fst (backward exact squared 1)) (rev (topo_order squared 1)) 0 = [6] \<and>
   grad (fst (backward exact squared 1) ! 0) = 6"
proof -
  have l: "0 < length (leaf 3)" by (simp add: leaf_eq)
  have d: "pow_defined (data (leaf 3 ! 0)) 2" "pow_defined (data (leaf 3 ! 0)) (exact (2 - 1))"
    by (simp_all add: leaf_eq pow_defined_def)
  have o: "\<not> overflows exact (pow_value (data (leaf 3 ! 0)) 2)"
    "\<not> overflows exact (pow_value (data (leaf 3 ! 0)) (exact (2 - 1)))"
    by (simp_all add: leaf_eq pow_value_def exact_def overflows_small)
  have b: "backward exact squared 1 = (fst (backward exact squared 1), None)"
    unfolding backward_squared by simp
  have v: "exact (exact (2 * exact (pow_value (data (leaf 3 ! 0)) (exact (2 - 1)))) * 1) = 6"
    "exact (grad (leaf 3 ! 0) + 6) = 6"
    by (simp_all add: leaf_eq pow_value_def exact_def)
  note t = pow_contract [OF wf_leaf [of 3] l, of exact 0 2 squared 1 squared
      "fst (backward exact squared 1)"]
  from t have "pow exact (leaf 3) 0 (Ref 0) = Inl AssertionError" by blast
  moreover from t pow_squared d(2) o(2) b
  have "received exact (fst (backward exact squared 1)) (rev (topo_order squared 1)) 0 =
          [exact (exact (2 * exact (pow_value (data (leaf 3 ! 0)) (exact (2 - 1)))) * 1)] \<and>
        grad (fst (backward exact squared 1) ! 0) =
          exact (grad (leaf 3 ! 0) +
            exact (exact (2 * exact (pow_value (data (leaf 3 ! 0)) (exact (2 - 1)))) * 1))"
    by blast
  ultimately show ?thesis using wf_leaf [of 3] l d o b pow_squared by (simp only: v) simp
qed

text \<open>
  The claim as the specification states it fails at the value zero and at the end of the
  float range: \<open>Value(0.0) ** -1\<close> and \<open>Value(10.0) ** 400\<close> raise, and
  \<open>Value(0.0) ** 0\<close> succeeds but \<open>backward()\<close> on it raises.
\<close>

theorem pow_counterexample:
  "pow binary64 (leaf 0) 0 (Num (- 1)) = Inl ZeroDivisionError \<and>
   pow binary64 (leaf 10) 0 (Num 400) = Inl OverflowError \<and>
   pow binary64 (leaf 0) 0 (Num 0) = Inr (pow_at_zero, 1) \<and>
   backward binary64 pow_at_zero 1 = (seed pow_at_zero 1, Some ZeroDivisionError)"
  using overflows_binary64_1e400
  by (simp add: leaf_eq pow_at_zero_def float_pow_def pow_value_def Value_init_def
        set_backward_def backward_def topo_order_def build_topo.simps operands_def
        seed_def overflows_small)

section \<open>The order of iteration over operand sets\<close>

lemma same_graph_nth:
  assumes "same_graph h k" "v < length h"
  shows "data (h ! v) = data (k ! v)" "grad (h ! v) = grad (k ! v)"
    "backward_rule (h ! v) = backward_rule (k ! v)" "set (prev (h ! v)) = set (prev (k ! v))"
proof -
  from assms have e: "(h ! v)\<lparr>prev := []\<rparr> = (k ! v)\<lparr>prev := []\<rparr>"
    and s: "set (prev (h ! v)) = set (prev (k ! v))"
    by (auto simp: same_graph_def)
  from e show "data (h ! v) = data (k ! v)" by (auto dest: arg_cong[where f = data])
  from e show "grad (h ! v) = grad (k ! v)" by (auto dest: arg_cong[where f = grad])
  from e show "backward_rule (h ! v) = backward_rule (k ! v)"
    by (auto dest: arg_cong[where f = backward_rule])
  from s show "set (prev (h ! v)) = set (prev (k ! v))" .
qed

lemma same_graph_operands:
  "same_graph h k \<Longrightarrow> set (operands h v) = set (operands k v)"
  using same_graph_nth(4)[of h k v] by (auto simp: operands_def same_graph_def)

lemma same_graph_reachable:
  assumes "same_graph h k"
  shows "reachable h r = reachable k r"
proof -
  have "edges h = edges k" using same_graph_operands[OF assms] by (simp add: edges_def)
  then show ?thesis by (simp add: reachable_def)
qed

lemma received_amounts: "received fl h L u = concat (map (\<lambda>c. amounts fl h c u) L)"
  by (simp add: received_def amounts_def)

lemma sum_received:
  "distinct L \<Longrightarrow> sum_list (received fl h L u) = (\<Sum>c \<in> set L. sum_list (amounts fl h c u))"
  by (induction L) (simp_all add: received_amounts)

lemma contributions_eq:
  assumes ok: "rule_ok c (h ! c)" and c: "c < length h"
    and r: "backward_rule (k ! c) = backward_rule (h ! c)"
    and d: "\<forall>v \<le> c. data (k ! v) = data (h ! v)"
    and g: "grad (k ! c) = grad (h ! c)"
  shows "contributions fl k (backward_rule (k ! c)) = contributions fl h (backward_rule (h ! c))"
proof (cases "backward_rule (h ! c)")
  case NoOp
  with r show ?thesis by simp
next
  case (AddBw a b out)
  with ok have "out = c" "a < c" "b < c" by (auto simp: rule_ok_def)
  with c AddBw r g show ?thesis by simp
next
  case (MulBw a b out)
  with ok have "out = c" "a < c" "b < c" by (auto simp: rule_ok_def)
  with c MulBw r g d show ?thesis by simp
next
  case (PowBw a n out)
  with ok have "out = c" "a < c" by (auto simp: rule_ok_def)
  with c PowBw r g d show ?thesis by (simp split: sum.splits)
next
  case (TanhBw a t out)
  with ok have "out = c" "a < c" by (auto simp: rule_ok_def)
  with c TanhBw r g show ?thesis by (simp split: sum.splits)
next
  case (ReluBw a out)
  with ok have "out = c" "a < c" by (auto simp: rule_ok_def)
  with c ReluBw r g d show ?thesis by simp
next
  case (ExpBw a out)
  with ok have "out = c" "a < c" by (auto simp: rule_ok_def)
  with c ExpBw r g d show ?thesis by simp
qed

lemma amounts_none:
  assumes "wf_heap h" "c < length h" "u \<notin> set (operands h c)"
  shows "amounts fl h c u = []"
  using received_none[of h "[c]" u fl] assms by (simp add: received_amounts)

lemma order_independent_aux:
  assumes wfh: "wf_heap h" and wfk: "wf_heap k" and sg: "same_graph h k"
    and r: "r < length h"
    and bh: "backward exact h r = (h', None)" and bk: "backward exact k r = (k', None)"
    and u: "u < length h"
  shows "grad (h' ! u) = grad (k' ! u)"
proof -
  have lk: "length k = length h" using sg by (simp add: same_graph_def)
  note ah = backward_accumulates_aux[OF wfh r bh]
  note ak = backward_accumulates_aux[OF wfk r[folded lk] bk]
  let ?T = "reachable h r"
  have Th: "set (topo_order h r) = ?T" using topo_order_set[OF wf_acyclic[OF wfh]] .
  have Tk: "set (topo_order k r) = ?T"
    using topo_order_set[OF wf_acyclic[OF wfk]] same_graph_reachable[OF sg] by simp
  have dh: "distinct (rev (topo_order h r))" and dk: "distinct (rev (topo_order k r))"
    using topo_order_dfs(1)[OF wf_acyclic[OF wfh]] topo_order_dfs(1)[OF wf_acyclic[OF wfk]]
    by simp_all
  have Tsub: "c < length h" if "c \<in> ?T" for c using reachable_le[OF wfh that] r by simp
  have fh: "\<And>v. v < length h \<Longrightarrow> grad (h' ! v) =
      (if v = r then 1 else grad (h ! v)) + (\<Sum>c \<in> ?T. sum_list (amounts exact h' c v))"
    using ah(1) by (simp add: accumulate_exact sum_received[OF dh] Th)
  have fk: "\<And>v. v < length h \<Longrightarrow> grad (k' ! v) =
      (if v = r then 1 else grad (k ! v)) + (\<Sum>c \<in> ?T. sum_list (amounts exact k' c v))"
    using ak(1) lk by (simp add: accumulate_exact sum_received[OF dk] Tk)
  have wfh': "wf_heap h'" using forget_eq_wf[OF ah(3)[symmetric] wfh] .
  have wfk': "wf_heap k'" using forget_eq_wf[OF ak(3)[symmetric] wfk] .
  have lh': "length h' = length h" using forget_eq_length[OF ah(3)] .
  have lk': "length k' = length h" using forget_eq_length[OF ak(3)] lk by simp
  have data': "data (k' ! v) = data (h' ! v)" if "v < length h" for v
    using forget_eq_nth(1)[OF ah(3), of v] forget_eq_nth(1)[OF ak(3), of v]
      same_graph_nth(1)[OF sg that] that lh' lk' by simp
  have rule': "backward_rule (k' ! v) = backward_rule (h' ! v)" if "v < length h" for v
    using forget_eq_nth(2)[OF ah(3), of v] forget_eq_nth(2)[OF ak(3), of v]
      same_graph_nth(3)[OF sg that] that lh' lk' by simp
  have ops': "set (operands k' v) = set (operands h' v)" for v
    using forget_eq_operands[OF ah(3), of v] forget_eq_operands[OF ak(3), of v]
      same_graph_operands[OF sg, of v] by simp
  show ?thesis using u
  proof (induction "length h - u" arbitrary: u rule: less_induct)
    case less
    have "amounts exact h' c u = amounts exact k' c u" if cT: "c \<in> ?T" for c
    proof (cases "u \<in> set (operands h' c)")
      case False
      then have "u \<notin> set (operands k' c)" using ops' by simp
      with False show ?thesis
        using amounts_none[OF wfh'] amounts_none[OF wfk'] Tsub[OF cT] lh' lk' by simp
    next
      case True
      then have uc: "u < c" using wf_operands_less[OF wfh'] by simp
      have cl: "c < length h" using Tsub[OF cT] .
      with uc less.prems have "length h - c < length h - u" by simp
      from less.hyps[OF this cl] have gc: "grad (k' ! c) = grad (h' ! c)" by simp
      from wfh' cl lh' have ok: "rule_ok c (h' ! c)" by (simp add: wf_heap_def)
      have "contributions exact k' (backward_rule (k' ! c)) =
            contributions exact h' (backward_rule (h' ! c))"
        using contributions_eq[OF ok _ rule'[OF cl] _ gc] cl lh' data' by simp
      then show ?thesis by (simp add: amounts_def)
    qed
    then have "(\<Sum>c \<in> ?T. sum_list (amounts exact h' c u)) =
               (\<Sum>c \<in> ?T. sum_list (amounts exact k' c u))"
      by simp
    with fh[OF less.prems] fk[OF less.prems] same_graph_nth(2)[OF sg less.prems]
    show ?case by simp
  qed
qed

lemma cancelling_graph_eq: "cancelling_graph =
  [\<lparr>data = 1, grad = 0, backward_rule = NoOp, prev = [], op = OpNone, label = []\<rparr>,
   \<lparr>data = 10000000000000000, grad = 0, backward_rule = NoOp, prev = [], op = OpNone,
      label = []\<rparr>,
   \<lparr>data = 10000000000000000, grad = 0, backward_rule = MulBw 0 1 2, prev = [0, 1],
      op = OpMul, label = []\<rparr>,
   \<lparr>data = - 10000000000000000, grad = 0, backward_rule = NoOp, prev = [], op = OpNone,
      label = []\<rparr>,
   \<lparr>data = - 10000000000000000, grad = 0, backward_rule = MulBw 0 3 4, prev = [0, 3],
      op = OpMul, label = []\<rparr>,
   \<lparr>data = 0, grad = 0, backward_rule = AddBw 2 4 5, prev = [2, 4], op = OpAdd,
      label = []\<rparr>,
   \<lparr>data = 1, grad = 0, backward_rule = NoOp, prev = [], op = OpNone, label = []\<rparr>,
   \<lparr>data = 1, grad = 0, backward_rule = MulBw 0 6 7, prev = [0, 6], op = OpMul,
      label = []\<rparr>,
   \<lparr>data = 1, grad = 0, backward_rule = AddBw 5 7 8, prev = [5, 7], op = OpAdd,
      label = []\<rparr>]"
  by (simp add: cancelling_graph_def leaf_eq add_def mul_def Value_init_def set_backward_def)

lemma raising_graph_eq: "raising_graph =
  [\<lparr>data = 0, grad = 0, backward_rule = NoOp, prev = [], op = OpNone, label = []\<rparr>,
   \<lparr>data = 0, grad = 0, backward_rule = PowBw 0 (1 / 2) 1, prev = [0], op = OpPow (1 / 2),
      label = []\<rparr>,
   \<lparr>data = 3, grad = 0, backward_rule = NoOp, prev = [], op = OpNone, label = []\<rparr>,
   \<lparr>data = 0, grad = 0, backward_rule = MulBw 0 2 3, prev = [0, 2], op = OpMul,
      label = []\<rparr>,
   \<lparr>data = 0, grad = 0, backward_rule = AddBw 1 3 4, prev = [1, 3], op = OpAdd,
      label = []\<rparr>]"
  by (simp add: raising_graph_def leaf_eq add_def mul_def Value_init_def set_backward_def
        float_pow_def pow_value_def exact_def overflows_small)

lemma list_all_enumerate:
  "list_all (\<lambda>(v, n). P v n) (enumerate 0 h) = (\<forall>v < length h. P v (h ! v))"
  by (auto simp: list_all_iff in_set_enumerate_eq)

lemma wf_heap_enumerate: "wf_heap h = list_all (\<lambda>(v, n). rule_ok v n) (enumerate 0 h)"
  by (simp add: wf_heap_def list_all_enumerate)

lemma same_graph_enumerate:
  "same_graph h k =
     (length h = length k \<and>
      list_all (\<lambda>(v, n). n\<lparr>prev := []\<rparr> = (k ! v)\<lparr>prev := []\<rparr> \<and>
                         set (prev n) = set (prev (k ! v)))
        (enumerate 0 h))"
  by (simp add: same_graph_def list_all_enumerate)

lemma wf_cancelling: "wf_heap cancelling_graph" "wf_heap (reordered cancelling_graph 8)"
  by (simp_all add: cancelling_graph_eq reordered_def wf_heap_enumerate rule_ok_def insert_commute)

lemma same_cancelling: "same_graph cancelling_graph (reordered cancelling_graph 8)"
  by (simp add: cancelling_graph_eq reordered_def same_graph_enumerate insert_commute)

lemma wf_raising: "wf_heap raising_graph" "wf_heap (reordered raising_graph 4)"
  by (simp_all add: raising_graph_eq reordered_def wf_heap_enumerate rule_ok_def insert_commute)

lemma same_raising: "same_graph raising_graph (reordered raising_graph 4)"
  by (simp add: raising_graph_eq reordered_def same_graph_enumerate insert_commute)

lemma topo_cancelling: "topo_order cancelling_graph 8 = [0, 1, 2, 3, 4, 5, 6, 7, 8]"
  by (simp add: cancelling_graph_eq topo_order_def build_topo.simps operands_def)

lemma topo_cancelling_reordered:
  "topo_order (reordered cancelling_graph 8) 8 = [0, 6, 7, 1, 2, 3, 4, 5, 8]"
  by (simp add: cancelling_graph_eq reordered_def topo_order_def build_topo.simps operands_def)

lemma backward_cancelling:
  "snd (backward binary64 cancelling_graph 8) = None"
  "grad (fst (backward binary64 cancelling_graph 8) ! 0) = 0"
  by (simp_all add: backward_def topo_cancelling)
     (simp_all add: cancelling_graph_eq seed_def add_grad_def)

lemma backward_cancelling_reordered:
  "snd (backward binary64 (reordered cancelling_graph 8) 8) = None"
  "grad (fst (backward binary64 (reordered cancelling_graph 8) 8) ! 0) = 1"
  by (simp_all add: backward_def topo_cancelling_reordered)
     (simp_all add: cancelling_graph_eq reordered_def seed_def add_grad_def)

lemma backward_raising:
  "snd (backward exact raising_graph 4) = Some ZeroDivisionError"
  "grad (fst (backward exact raising_graph 4) ! 0) = 3"
  by (simp_all add: raising_graph_eq backward_def topo_order_def build_topo.simps operands_def
        seed_def add_grad_def float_pow_def exact_def)

lemma backward_raising_reordered:
  "snd (backward exact (reordered raising_graph 4) 4) = Some ZeroDivisionError"
  "grad (fst (backward exact (reordered raising_graph 4) 4) ! 0) = 0"
  by (simp_all add: raising_graph_eq reordered_def backward_def topo_order_def build_topo.simps
        operands_def seed_def add_grad_def float_pow_def exact_def)

lemma raises_eq:
  assumes ok: "rule_ok c (h ! c)" and c: "c < length h"
    and r: "backward_rule (k ! c) = backward_rule (h ! c)"
    and d: "\<forall>v \<le> c. data (k ! v) = data (h ! v)"
  shows "isl (contributions fl k (backward_rule (k ! c))) =
         isl (contributions fl h (backward_rule (h ! c)))"
proof (cases "backward_rule (h ! c)")
  case (PowBw a n out)
  with ok have "out = c" "a < c" by (auto simp: rule_ok_def)
  with c PowBw r d show ?thesis by (simp split: sum.splits)
next
  case (TanhBw a t out)
  with r show ?thesis by (simp split: sum.splits)
qed (simp_all add: r)

lemma propagate_returns_iff:
  assumes "wf_heap h" "set L \<subseteq> {..<length h}"
  shows "(snd (propagate fl L h) = None) =
         (\<forall>c \<in> set L. \<not> isl (contributions fl h (backward_rule (h ! c))))"
  using assms
proof (induction L arbitrary: h)
  case Nil
  show ?case by simp
next
  case (Cons c L)
  from Cons.prems have c: "c < length h" by simp
  with Cons.prems(1) have ok: "rule_ok c (h ! c)" by (simp add: wf_heap_def)
  show ?case
  proof (cases "run_rule fl (backward_rule (h ! c)) h")
    case (Inl e)
    with run_rule_accumulates[OF ok c, of fl]
    have "contributions fl h (backward_rule (h ! c)) = Inl e" by simp
    with Inl show ?thesis by simp
  next
    case (Inr h1)
    with run_rule_accumulates[OF ok c, of fl] obtain ws where
      ws: "contributions fl h (backward_rule (h ! c)) = Inr ws" by auto
    have f1: "map forget_grad h1 = map forget_grad h" using Inr by (rule forget_run_rule)
    have l1: "length h1 = length h" using forget_eq_length[OF f1] .
    have wf1: "wf_heap h1" using forget_eq_wf[OF f1[symmetric] Cons.prems(1)] .
    have same: "isl (contributions fl h1 (backward_rule (h1 ! c'))) =
                isl (contributions fl h (backward_rule (h ! c')))" if "c' \<in> set L" for c'
    proof -
      from that Cons.prems(2) have c': "c' < length h" by auto
      with Cons.prems(1) have ok': "rule_ok c' (h ! c')" by (simp add: wf_heap_def)
      show ?thesis
        using raises_eq[OF ok' c', of h1 fl] forget_eq_nth(1,2)[OF f1] c' l1 by simp
    qed
    from Cons.IH[OF wf1] Cons.prems(2) l1
    have "(snd (propagate fl L h1) = None) =
          (\<forall>c \<in> set L. \<not> isl (contributions fl h1 (backward_rule (h1 ! c))))" by simp
    with Inr ws same show ?thesis by simp
  qed
qed

lemma backward_returns_iff:
  assumes wf: "wf_heap h" and r: "r < length h"
  shows "(snd (backward fl h r) = None) =
         (\<forall>c \<in> reachable h r. \<not> isl (contributions fl h (backward_rule (h ! c))))"
proof -
  have wfs: "wf_heap (seed h r)" using forget_eq_wf[OF seed_forget wf] .
  have T: "set (topo_order h r) = reachable h r" using topo_order_set[OF wf_acyclic[OF wf]] .
  have sub: "set (rev (topo_order h r)) \<subseteq> {..<length (seed h r)}"
    using T reachable_le[OF wf] r by (fastforce simp: seed_def)
  have same: "isl (contributions fl (seed h r) (backward_rule (seed h r ! c))) =
              isl (contributions fl h (backward_rule (h ! c)))" if "c \<in> reachable h r" for c
  proof -
    from that have c: "c < length h" using reachable_le[OF wf that] r by simp
    with wf have ok: "rule_ok c (h ! c)" by (simp add: wf_heap_def)
    show ?thesis
      using raises_eq[OF ok c, of "seed h r" fl] forget_eq_nth(1,2)[OF seed_forget[of h r]] c
      by simp
  qed
  from propagate_returns_iff[OF wfs sub, of fl] same show ?thesis
    by (simp add: backward_def T)
qed

text \<open>
  Claim C9, as the code has it. In exact arithmetic the gradients of a \<open>backward()\<close> call
  that returns do not depend on the order in which the operand sets are iterated: for two
  heaps that are the same graph with the same gradients at entry and differ at most in
  these orders, when the call returns on one it returns on the other, and the two calls
  leave the same gradient in every object.
\<close>

theorem order_independent:
  assumes wfh: "wf_heap h" and wfk: "wf_heap k" and sg: "same_graph h k"
    and r: "r < length h" and bh: "backward exact h r = (h', None)"
  shows "snd (backward exact k r) = None \<and>
         (\<forall>u < length h. grad (fst (backward exact k r) ! u) = grad (h' ! u))"
proof -
  have lk: "length k = length h" using sg by (simp add: same_graph_def)
  have same: "isl (contributions exact k (backward_rule (k ! c))) =
              isl (contributions exact h (backward_rule (h ! c)))" if "c \<in> reachable h r" for c
  proof -
    from that have c: "c < length h" using reachable_le[OF wfh that] r by simp
    with wfh have ok: "rule_ok c (h ! c)" by (simp add: wf_heap_def)
    have "\<forall>v \<le> c. data (k ! v) = data (h ! v)"
      using same_graph_nth(1)[OF sg] c by simp
    from raises_eq[OF ok c _ this] same_graph_nth(3)[OF sg c] show ?thesis by simp
  qed
  from bh have "snd (backward exact h r) = None" by simp
  then have ret: "snd (backward exact k r) = None"
    using backward_returns_iff[OF wfh r, of exact] backward_returns_iff[OF wfk, of r exact]
      same same_graph_reachable[OF sg, of r] r lk by simp
  then have bk: "backward exact k r = (fst (backward exact k r), None)"
    by (metis prod.collapse)
  from order_independent_aux[OF wfh wfk sg r bh bk] ret show ?thesis by simp
qed

theorem order_independent_witness:
  "wf_heap diamond \<and> wf_heap (reordered diamond 2) \<and> same_graph diamond (reordered diamond 2) \<and>
   2 < length diamond \<and> snd (backward exact diamond 2) = None \<and>
   prev (diamond ! 2) = [1, 0] \<and> prev (reordered diamond 2 ! 2) = [0, 1] \<and>
   snd (backward exact (reordered diamond 2) 2) = None \<and>
   grad (fst (backward exact (reordered diamond 2) 2) ! 0) = 7"
  using order_independent [of diamond "reordered diamond 2" 2
      "fst (backward exact diamond 2)"]
    wf_diamond backward_diamond
  by (simp add: same_graph_enumerate wf_heap_enumerate rule_ok_def reordered_def insert_commute)
     (simp add: diamond_eq insert_commute)

text \<open>
  The claim as stated fails in two ways. In binary64 the sum of the contributions
  \<open>1e16\<close>, \<open>-1e16\<close> and \<open>1\<close> depends on the order of the additions: for
  \<open>x = Value(1.0); root = (x * 1e16 + x * -1e16) + x * 1.0\<close> the gradient of \<open>x\<close> is 0.0
  when the operand set of \<open>root\<close> is iterated in one order and 1.0 in the other. And when
  a closure raises, the gradients written before it depend on the order: for
  \<open>x = Value(0.0); root = x ** 0.5 + x * 3\<close> the call leaves 3.0 or 0.0 in \<open>x\<close>.
\<close>

theorem order_dependent_counterexample:
  "wf_heap cancelling_graph \<and> wf_heap (reordered cancelling_graph 8) \<and>
   same_graph cancelling_graph (reordered cancelling_graph 8) \<and>
   list_all (\<lambda>n. grad n = 0) cancelling_graph \<and>
   snd (backward binary64 cancelling_graph 8) = None \<and>
   snd (backward binary64 (reordered cancelling_graph 8) 8) = None \<and>
   grad (fst (backward binary64 cancelling_graph 8) ! 0) = 0 \<and>
   grad (fst (backward binary64 (reordered cancelling_graph 8) 8) ! 0) = 1 \<and>
   wf_heap raising_graph \<and> wf_heap (reordered raising_graph 4) \<and>
   same_graph raising_graph (reordered raising_graph 4) \<and>
   list_all (\<lambda>n. grad n = 0) raising_graph \<and>
   snd (backward exact raising_graph 4) = Some ZeroDivisionError \<and>
   snd (backward exact (reordered raising_graph 4) 4) = Some ZeroDivisionError \<and>
   grad (fst (backward exact raising_graph 4) ! 0) = 3 \<and>
   grad (fst (backward exact (reordered raising_graph 4) 4) ! 0) = 0"
  using wf_cancelling same_cancelling backward_cancelling backward_cancelling_reordered
    wf_raising same_raising backward_raising backward_raising_reordered
  by (simp add: cancelling_graph_eq raising_graph_eq)

end
